theory Spec2Isabelle
  imports Complex_Main
begin

section \<open>Python values, exceptions and tables\<close>

text \<open>
  A Python float: a finite number, an infinity or NaN.  Finite numbers are real
  numbers here; where the program rounds to 64 bits the rounding is written out (see
  \<open>fl\<close> in the section on \<open>data_cleaning.py\<close>).
\<close>

datatype pyfloat = Fin real | PosInf | NegInf | NaN

text \<open>
  The values held in DataFrame cells and returned by the JSON decoder.  \<open>PNum\<close> is a
  finite number; \<open>PNaN\<close>, \<open>PPosInf\<close> and \<open>PNegInf\<close> are the other floats (a missing
  number in a table read from CSV is \<open>PNaN\<close>).  A \<open>PDict\<close> lists the items of a
  dictionary; a key is looked up with \<open>map_of\<close>.
\<close>

datatype pyval =
    PNone
  | PBool bool
  | PNum real
  | PNaN
  | PPosInf
  | PNegInf
  | PStr string
  | PList "pyval list"
  | PDict "(string \<times> pyval) list"

fun num_cell :: "pyfloat \<Rightarrow> pyval" where
  "num_cell (Fin x) = PNum x"
| "num_cell NaN = PNaN"
| "num_cell PosInf = PPosInf"
| "num_cell NegInf = PNegInf"

text \<open>
  The comparisons \<open><\<close>, \<open>==\<close> and \<open><=\<close> of floats: each is false when an operand is NaN.
\<close>

fun fless :: "pyfloat \<Rightarrow> pyfloat \<Rightarrow> bool" where
  "fless NaN b = False"
| "fless a NaN = False"
| "fless (Fin x) (Fin y) = (x < y)"
| "fless a NegInf = False"
| "fless NegInf b = True"
| "fless PosInf b = False"
| "fless (Fin x) PosInf = True"

fun feq :: "pyfloat \<Rightarrow> pyfloat \<Rightarrow> bool" where
  "feq NaN b = False"
| "feq a NaN = False"
| "feq a b = (a = b)"

definition fle :: "pyfloat \<Rightarrow> pyfloat \<Rightarrow> bool" where
  "fle a b = (fless a b \<or> feq a b)"

text \<open>The exceptions raised by the modelled code, by name.\<close>

datatype error =
    KeyError
  | ValueError
  | TypeError
  | IndexError
  | AttributeError
  | ZeroDivisionError
  | OverflowError
  | RequestException
  | HTTPError
  | JSONDecodeError

text \<open>
  A table of candidate locations (\<open>loc_df\<close>): as the docstring of \<open>nearest_loc\<close>
  requires, every row has an \<open>Address\<close>, a \<open>Lat\<close> and a \<open>Long\<close>; the coordinates are
  floats, NaN where the table has none.
\<close>

record candidate =
  Address :: string
  Lat :: pyfloat
  Long :: pyfloat

type_synonym point = "real \<times> real"

text \<open>
  A DataFrame with arbitrary columns (\<open>hdbs\<close>): its column labels and its rows of
  cells, one cell per column.  \<open>wf_frame\<close> is the shape every such DataFrame has:
  distinct labels, and as many cells in each row as there are labels.
\<close>

record dataframe =
  columns :: "string list"
  rows :: "pyval list list"

definition wf_frame :: "dataframe \<Rightarrow> bool" where
  "wf_frame df = (distinct (columns df) \<and> list_all (\<lambda>r. length r = length (columns df)) (rows df))"

section \<open>feature\_engineering.py: nearest\_loc\<close>

text \<open>
  \<open>haversine(point1, point2, unit=Unit.KILOMETERS)\<close> of the external \<open>haversine\<close>
  package.  It first checks both points, \<open>point1\<close> before \<open>point2\<close>, and raises
  \<open>ValueError\<close> for a latitude outside [-90, 90] or a longitude outside [-180, 180]; NaN
  passes the check, since every comparison with it is false.  Then it computes the
  great-circle distance in kilometres: NaN when a coordinate is NaN, and on four finite
  coordinates the value of the formula, which is the parameter \<open>hav\<close> of the model.
\<close>

definition ensure_lat_lon :: "pyfloat \<times> pyfloat \<Rightarrow> error + unit" where
  "ensure_lat_lon p =
     (case p of (lat, lon) \<Rightarrow>
        if fless lat (Fin (- 90)) \<or> fless (Fin 90) lat then Inl ValueError
        else if fless lon (Fin (- 180)) \<or> fless (Fin 180) lon then Inl ValueError
        else Inr ())"

definition haversine ::
  "(point \<Rightarrow> point \<Rightarrow> real) \<Rightarrow> pyfloat \<times> pyfloat \<Rightarrow> pyfloat \<times> pyfloat \<Rightarrow> error + pyfloat" where
  "haversine hav point1 point2 =
     (case ensure_lat_lon point1 of Inl e \<Rightarrow> Inl e | Inr _ \<Rightarrow>
      case ensure_lat_lon point2 of Inl e \<Rightarrow> Inl e | Inr _ \<Rightarrow>
      (case (point1, point2) of
         ((Fin lat1, Fin lng1), (Fin lat2, Fin lng2)) \<Rightarrow> Inr (Fin (hav (lat1, lng1) (lat2, lng2)))
       | _ \<Rightarrow> Inr NaN))"

text \<open>A list comprehension whose element expression may raise: the first exception wins.\<close>

fun collect :: "(error + 'a) list \<Rightarrow> error + 'a list" where
  "collect [] = Inr []"
| "collect (x # xs) =
     (case x of Inl e \<Rightarrow> Inl e
      | Inr v \<Rightarrow> (case collect xs of Inl e \<Rightarrow> Inl e | Inr vs \<Rightarrow> Inr (v # vs)))"

text \<open>
  \<open>np.argmin\<close>: the index of the first occurrence of the least element, and the index of
  the first NaN when there is one; raises \<open>ValueError\<close> on an empty sequence.  The scan
  keeps the best index seen so far and replaces it by a strictly smaller element, or by
  a NaN when the best so far is not NaN.
\<close>

definition np_less :: "pyfloat \<Rightarrow> pyfloat \<Rightarrow> bool" where
  "np_less d best = (best \<noteq> NaN \<and> (d = NaN \<or> fless d best))"

fun argmin_from :: "nat \<Rightarrow> pyfloat \<Rightarrow> nat \<Rightarrow> pyfloat list \<Rightarrow> nat" where
  "argmin_from bi bd i [] = bi"
| "argmin_from bi bd i (d # ds) =
     (if np_less d bd then argmin_from i d (Suc i) ds else argmin_from bi bd (Suc i) ds)"

definition argmin :: "pyfloat list \<Rightarrow> error + nat" where
  "argmin ds = (case ds of [] \<Rightarrow> Inl ValueError | d # ds' \<Rightarrow> Inr (argmin_from 0 d 1 ds'))"

text \<open>
  A coordinate read from a cell, as NumPy and \<open>haversine\<close> use it: a float is itself, a
  boolean counts as 0 or 1, anything else makes the comparison in \<open>haversine\<close> raise
  \<open>TypeError\<close>.
\<close>

fun as_float :: "pyval \<Rightarrow> error + pyfloat" where
  "as_float (PNum x) = Inr (Fin x)"
| "as_float PNaN = Inr NaN"
| "as_float PPosInf = Inr PosInf"
| "as_float PNegInf = Inr NegInf"
| "as_float (PBool b) = Inr (Fin (if b then 1 else 0))"
| "as_float _ = Inl TypeError"

text \<open>
  \<open>nearest_loc(hdb_lat, hdb_lon, loc_df)\<close>.  With no candidate the list of distances is
  empty, \<open>haversine\<close> is never called and \<open>np.argmin\<close> raises.
\<close>

definition nearest_loc ::
  "(point \<Rightarrow> point \<Rightarrow> real) \<Rightarrow> pyval \<Rightarrow> pyval \<Rightarrow> candidate list
     \<Rightarrow> error + (string \<times> pyfloat \<times> pyfloat \<times> bool option)" where
  "nearest_loc hav hdb_lat hdb_lon loc_df =
     (if loc_df = [] then Inl ValueError
      else case as_float hdb_lat of Inl e \<Rightarrow> Inl e | Inr la \<Rightarrow>
           case as_float hdb_lon of Inl e \<Rightarrow> Inl e | Inr lo \<Rightarrow>
           case collect (map (\<lambda>loc. haversine hav (la, lo) (Lat loc, Long loc)) loc_df) of
             Inl e \<Rightarrow> Inl e | Inr dists \<Rightarrow>
           case argmin dists of Inl e \<Rightarrow> Inl e | Inr min_idx \<Rightarrow>
           let within_1km = (if feq (dists ! min_idx) (Fin 0) then None
                             else Some (fle (dists ! min_idx) (Fin 1)));
               nearest = loc_df ! min_idx
           in Inr (Address nearest, Lat nearest, Long nearest, within_1km))"

text \<open>
  Coordinates that are numbers in the range \<open>haversine\<close> accepts, and the distance from
  such a query point to such a candidate, as \<open>nearest_loc\<close> computes it.
\<close>

fun in_range :: "real \<Rightarrow> pyfloat \<Rightarrow> bool" where
  "in_range bound (Fin x) = (- bound \<le> x \<and> x \<le> bound)"
| "in_range bound _ = False"

definition valid_loc :: "candidate \<Rightarrow> bool" where
  "valid_loc loc = (in_range 90 (Lat loc) \<and> in_range 180 (Long loc))"

fun fin_val :: "pyfloat \<Rightarrow> real" where
  "fin_val (Fin x) = x"
| "fin_val _ = 0"

definition dist_to :: "(point \<Rightarrow> point \<Rightarrow> real) \<Rightarrow> real \<Rightarrow> real \<Rightarrow> candidate \<Rightarrow> real" where
  "dist_to hav la lo loc = hav (la, lo) (fin_val (Lat loc), fin_val (Long loc))"

section \<open>feature\_engineering.py: the routing service and get\_distance\<close>

text \<open>One GET request to the routing endpoint: the query parameters and the header.\<close>

record request =
  start_param :: "pyval \<times> pyval"
  end_param :: "pyval \<times> pyval"
  routeType :: string
  authorization :: string

text \<open>
  What the network gives back: no response at all (\<open>requests.get\<close> raises), or a status
  code with a body that either decodes as JSON or does not.  The endpoint is outside the
  program: \<open>srv n r\<close> is the answer to request \<open>r\<close> when \<open>n\<close> requests were sent before it.
\<close>

datatype body = Malformed | Json pyval

datatype outcome = Transport_failure | Response nat body

type_synonym endpoint = "nat \<Rightarrow> request \<Rightarrow> outcome"

text \<open>
  The effects of a run: the DataFrame objects (by address, \<open>next_ref\<close> the first unused
  one), the lines of the output file \<open>datasets/HDB_Features.csv\<close>, and the sequence of
  requests sent, appends made and pauses taken, oldest first.
\<close>

datatype csv_line = Header "string list" | Row "pyval list"

datatype event = Sent request | Appended "csv_line list" | Slept nat

record world =
  heap :: "nat \<Rightarrow> dataframe"
  next_ref :: nat
  out_file :: "csv_line list"
  trace :: "event list"

fun is_Sent :: "event \<Rightarrow> bool" where
  "is_Sent (Sent r) = True"
| "is_Sent _ = False"

fun is_Header :: "csv_line \<Rightarrow> bool" where
  "is_Header (Header h) = True"
| "is_Header _ = False"

definition sent_count :: "world \<Rightarrow> nat" where
  "sent_count w = length (filter is_Sent (trace w))"

text \<open>Sequencing of two effectful steps, the first exception ending the sequence.\<close>

definition seq ::
  "(world \<Rightarrow> (error + 'a) \<times> world) \<Rightarrow> ('a \<Rightarrow> world \<Rightarrow> (error + 'b) \<times> world)
     \<Rightarrow> world \<Rightarrow> (error + 'b) \<times> world" where
  "seq m f w = (case m w of (Inl e, w') \<Rightarrow> (Inl e, w') | (Inr x, w') \<Rightarrow> f x w')"

definition requests_get :: "endpoint \<Rightarrow> request \<Rightarrow> world \<Rightarrow> (error + nat \<times> body) \<times> world" where
  "requests_get srv r w =
     (let w' = w\<lparr>trace := trace w @ [Sent r]\<rparr> in
      case srv (sent_count w) r of
        Transport_failure \<Rightarrow> (Inl RequestException, w')
      | Response status b \<Rightarrow> (Inr (status, b), w'))"

definition raise_for_status :: "nat \<Rightarrow> error + unit" where
  "raise_for_status status = (if 400 \<le> status \<and> status < 600 then Inl HTTPError else Inr ())"

definition response_json :: "body \<Rightarrow> error + pyval" where
  "response_json b = (case b of Malformed \<Rightarrow> Inl JSONDecodeError | Json v \<Rightarrow> Inr v)"

text \<open>\<open>obj.get(key, default)\<close>: only a dictionary has the method.\<close>

fun py_get :: "pyval \<Rightarrow> string \<Rightarrow> pyval \<Rightarrow> error + pyval" where
  "py_get (PDict items) key dflt = Inr (case map_of items key of None \<Rightarrow> dflt | Some v \<Rightarrow> v)"
| "py_get _ key dflt = Inl AttributeError"

definition route_request :: "pyval \<Rightarrow> pyval \<Rightarrow> pyval \<Rightarrow> pyval \<Rightarrow> string \<Rightarrow> request" where
  "route_request hdb_lat hdb_long loc_lat loc_long api_token =
     \<lparr>start_param = (hdb_lat, hdb_long), end_param = (loc_lat, loc_long),
      routeType = ''walk'', authorization = api_token\<rparr>"

text \<open>The body of the \<open>try\<close> block of \<open>get_distance\<close>.\<close>

definition get_distance_try ::
  "endpoint \<Rightarrow> pyval \<Rightarrow> pyval \<Rightarrow> pyval \<Rightarrow> pyval \<Rightarrow> string \<Rightarrow> world \<Rightarrow> (error + pyval) \<times> world" where
  "get_distance_try srv hdb_lat hdb_long loc_lat loc_long api_token w =
     (case requests_get srv (route_request hdb_lat hdb_long loc_lat loc_long api_token) w of
        (Inl e, w') \<Rightarrow> (Inl e, w')
      | (Inr (status, b), w') \<Rightarrow>
          (case raise_for_status status of Inl e \<Rightarrow> (Inl e, w') | Inr _ \<Rightarrow>
           case response_json b of Inl e \<Rightarrow> (Inl e, w') | Inr js \<Rightarrow>
           case py_get js ''route_summary'' (PDict []) of Inl e \<Rightarrow> (Inl e, w') | Inr summary \<Rightarrow>
           (py_get summary ''total_distance'' PNone, w')))"

text \<open>\<open>get_distance\<close>: the \<open>try\<close> block under \<open>except Exception: return None\<close>.\<close>

definition get_distance ::
  "endpoint \<Rightarrow> pyval \<Rightarrow> pyval \<Rightarrow> pyval \<Rightarrow> pyval \<Rightarrow> string \<Rightarrow> world \<Rightarrow> (error + pyval) \<times> world" where
  "get_distance srv hdb_lat hdb_long loc_lat loc_long api_token w =
     (case get_distance_try srv hdb_lat hdb_long loc_lat loc_long api_token w of
        (Inl e, w') \<Rightarrow> (Inr PNone, w')
      | (Inr v, w') \<Rightarrow> (Inr v, w'))"

text \<open>
  The value \<open>get_distance\<close> returns, as a function of what the endpoint answered (see
  \<open>get_distance_eq\<close> below).
\<close>

fun distance_of :: "outcome \<Rightarrow> pyval" where
  "distance_of Transport_failure = PNone"
| "distance_of (Response status Malformed) = PNone"
| "distance_of (Response status (Json js)) =
     (if 400 \<le> status \<and> status < 600 then PNone
      else case py_get js ''route_summary'' (PDict []) of
             Inl e \<Rightarrow> PNone
           | Inr summary \<Rightarrow>
               (case py_get summary ''total_distance'' PNone of Inl e \<Rightarrow> PNone | Inr v \<Rightarrow> v))"

section \<open>feature\_engineering.py: engineer\_distance\_features\<close>

fun index_of :: "string list \<Rightarrow> string \<Rightarrow> nat option" where
  "index_of [] c = None"
| "index_of (x # xs) c = (if x = c then Some 0 else map_option Suc (index_of xs c))"

text \<open>\<open>df[c]\<close>: the cells of column \<open>c\<close>, \<open>KeyError\<close> without such a column.\<close>

definition getitem :: "dataframe \<Rightarrow> string \<Rightarrow> error + pyval list" where
  "getitem df c =
     (case index_of (columns df) c of
        None \<Rightarrow> Inl KeyError
      | Some j \<Rightarrow> Inr (map (\<lambda>r. r ! j) (rows df)))"

text \<open>
  \<open>df[c] = vals\<close>: an existing column is overwritten where it stands, a new one is added
  at the right; a list of the wrong length raises \<open>ValueError\<close>.
\<close>

definition add_column :: "dataframe \<Rightarrow> string \<Rightarrow> pyval list \<Rightarrow> dataframe" where
  "add_column df c vals =
     \<lparr>columns = columns df @ [c], rows = map (\<lambda>(r, v). r @ [v]) (zip (rows df) vals)\<rparr>"

definition replace_column :: "dataframe \<Rightarrow> nat \<Rightarrow> pyval list \<Rightarrow> dataframe" where
  "replace_column df j vals =
     \<lparr>columns = columns df, rows = map (\<lambda>(r, v). r[j := v]) (zip (rows df) vals)\<rparr>"

definition setitem :: "dataframe \<Rightarrow> string \<Rightarrow> pyval list \<Rightarrow> error + dataframe" where
  "setitem df c vals =
     (if length vals \<noteq> length (rows df) then Inl ValueError
      else case index_of (columns df) c of
        None \<Rightarrow> Inr (add_column df c vals)
      | Some j \<Rightarrow> Inr (replace_column df j vals))"

definition getcol :: "nat \<Rightarrow> string \<Rightarrow> world \<Rightarrow> (error + pyval list) \<times> world" where
  "getcol ref c w = (getitem (heap w ref) c, w)"

text \<open>The assignment changes the object at \<open>ref\<close> itself.\<close>

definition setcol :: "nat \<Rightarrow> string \<Rightarrow> pyval list \<Rightarrow> world \<Rightarrow> (error + unit) \<times> world" where
  "setcol ref c vals w =
     (case setitem (heap w ref) c vals of
        Inl e \<Rightarrow> (Inl e, w)
      | Inr df' \<Rightarrow> (Inr (), w\<lparr>heap := (heap w)(ref := df')\<rparr>))"

text \<open>The six result lists of \<open>engineer_distance_features\<close>.\<close>

record features =
  nearest_mrt :: "pyval list"
  mrt_distances :: "pyval list"
  nearest_mall :: "pyval list"
  mall_distances :: "pyval list"
  nearest_school :: "pyval list"
  within_1km :: "pyval list"

definition no_features :: features where
  "no_features = \<lparr>nearest_mrt = [], mrt_distances = [], nearest_mall = [],
     mall_distances = [], nearest_school = [], within_1km = []\<rparr>"

fun tristate :: "bool option \<Rightarrow> pyval" where
  "tristate None = PNone"
| "tristate (Some b) = PBool b"

text \<open>
  The first five statements of the loop body, for one (hdb\_lat, hdb\_long): the values
  to append, in the order (mrt, mrt\_dist, mall, mall\_dist, school, school\_1km).
\<close>

definition subject_step ::
  "(point \<Rightarrow> point \<Rightarrow> real) \<Rightarrow> endpoint \<Rightarrow> candidate list \<Rightarrow> candidate list \<Rightarrow> candidate list
     \<Rightarrow> string \<Rightarrow> pyval \<Rightarrow> pyval \<Rightarrow> world
     \<Rightarrow> (error + (pyval \<times> pyval \<times> pyval \<times> pyval \<times> pyval \<times> pyval)) \<times> world" where
  "subject_step hav srv mrts malls schools api_token hdb_lat hdb_long w =
     (case nearest_loc hav hdb_lat hdb_long mrts of Inl e \<Rightarrow> (Inl e, w)
      | Inr (mrt, mrt_lat, mrt_long, _) \<Rightarrow>
     case get_distance srv hdb_lat hdb_long (num_cell mrt_lat) (num_cell mrt_long) api_token w of
        (Inl e, w1) \<Rightarrow> (Inl e, w1)
      | (Inr mrt_dist, w1) \<Rightarrow>
     case nearest_loc hav hdb_lat hdb_long malls of Inl e \<Rightarrow> (Inl e, w1)
      | Inr (mall, mall_lat, mall_long, _) \<Rightarrow>
     case get_distance srv hdb_lat hdb_long (num_cell mall_lat) (num_cell mall_long) api_token w1 of
        (Inl e, w2) \<Rightarrow> (Inl e, w2)
      | (Inr mall_dist, w2) \<Rightarrow>
     case nearest_loc hav hdb_lat hdb_long schools of Inl e \<Rightarrow> (Inl e, w2)
      | Inr (school, _, _, school_1km) \<Rightarrow>
     (Inr (PStr mrt, mrt_dist, PStr mall, mall_dist, PStr school, tristate school_1km), w2))"

fun enrich_loop ::
  "(point \<Rightarrow> point \<Rightarrow> real) \<Rightarrow> endpoint \<Rightarrow> candidate list \<Rightarrow> candidate list \<Rightarrow> candidate list
     \<Rightarrow> string \<Rightarrow> (pyval \<times> pyval) list \<Rightarrow> features \<Rightarrow> world \<Rightarrow> (error + features) \<times> world" where
  "enrich_loop hav srv mrts malls schools api_token [] fs w = (Inr fs, w)"
| "enrich_loop hav srv mrts malls schools api_token ((hdb_lat, hdb_long) # rest) fs w =
     (case subject_step hav srv mrts malls schools api_token hdb_lat hdb_long w of
        (Inl e, w') \<Rightarrow> (Inl e, w')
      | (Inr (mrt, mrt_dist, mall, mall_dist, school, school_1km), w') \<Rightarrow>
          enrich_loop hav srv mrts malls schools api_token rest
            \<lparr>nearest_mrt = nearest_mrt fs @ [mrt],
             mrt_distances = mrt_distances fs @ [mrt_dist],
             nearest_mall = nearest_mall fs @ [mall],
             mall_distances = mall_distances fs @ [mall_dist],
             nearest_school = nearest_school fs @ [school],
             within_1km = within_1km fs @ [school_1km]\<rparr> w')"

text \<open>
  The six column assignments and the \<open>return hdbs\<close> that end
  \<open>engineer_distance_features\<close>; \<open>hdbs\<close> is the address of the caller's DataFrame.
\<close>

definition assign_features :: "nat \<Rightarrow> features \<Rightarrow> world \<Rightarrow> (error + nat) \<times> world" where
  "assign_features hdbs fs =
     seq (setcol hdbs ''Nearest_MRT'' (nearest_mrt fs)) (\<lambda>_.
     seq (setcol hdbs ''Distance_MRT'' (mrt_distances fs)) (\<lambda>_.
     seq (setcol hdbs ''Nearest_Mall'' (nearest_mall fs)) (\<lambda>_.
     seq (setcol hdbs ''Distance_Mall'' (mall_distances fs)) (\<lambda>_.
     seq (setcol hdbs ''Nearest_Pri_Sch'' (nearest_school fs)) (\<lambda>_.
     seq (setcol hdbs ''Within_1km_of_Pri'' (within_1km fs)) (\<lambda>_.
     (\<lambda>w. (Inr hdbs, w))))))))"

text \<open>
  \<open>engineer_distance_features(hdbs, mrts, malls, schools, api_token)\<close>: the loop over
  \<open>zip(hdbs["Lat"], hdbs["Long"])\<close>, then the assignments.  The value returned is the
  address it was given.
\<close>

definition engineer_distance_features ::
  "(point \<Rightarrow> point \<Rightarrow> real) \<Rightarrow> endpoint \<Rightarrow> nat \<Rightarrow> candidate list \<Rightarrow> candidate list
     \<Rightarrow> candidate list \<Rightarrow> string \<Rightarrow> world \<Rightarrow> (error + nat) \<times> world" where
  "engineer_distance_features hav srv hdbs mrts malls schools api_token =
     seq (getcol hdbs ''Lat'') (\<lambda>lats.
     seq (getcol hdbs ''Long'') (\<lambda>longs.
     seq (enrich_loop hav srv mrts malls schools api_token (zip lats longs) no_features)
       (assign_features hdbs)))"

text \<open>
  The labels of the six assignments, and the DataFrame that the six assignments make of
  \<open>df\<close> when each of them adds a column (see \<open>assign_features_fresh\<close> below).
\<close>

definition feature_columns :: "string list" where
  "feature_columns = [''Nearest_MRT'', ''Distance_MRT'', ''Nearest_Mall'', ''Distance_Mall'',
     ''Nearest_Pri_Sch'', ''Within_1km_of_Pri'']"

definition with_features :: "dataframe \<Rightarrow> features \<Rightarrow> dataframe" where
  "with_features df fs =
     add_column (add_column (add_column (add_column (add_column (add_column df
       ''Nearest_MRT'' (nearest_mrt fs))
       ''Distance_MRT'' (mrt_distances fs))
       ''Nearest_Mall'' (nearest_mall fs))
       ''Distance_Mall'' (mall_distances fs))
       ''Nearest_Pri_Sch'' (nearest_school fs))
       ''Within_1km_of_Pri'' (within_1km fs)"

text \<open>
  A cell, and a candidate, that pass the check of \<open>haversine\<close> (as a latitude when the
  bound is 90, as a longitude when it is 180): a float that is not beyond the bound, NaN
  included.
\<close>

definition within_bound :: "real \<Rightarrow> pyfloat \<Rightarrow> bool" where
  "within_bound bound x = (\<not> fless x (Fin (- bound)) \<and> \<not> fless (Fin bound) x)"

definition cell_passes :: "real \<Rightarrow> pyval \<Rightarrow> bool" where
  "cell_passes bound v = (case as_float v of Inl e \<Rightarrow> False | Inr x \<Rightarrow> within_bound bound x)"

definition loc_passes :: "candidate \<Rightarrow> bool" where
  "loc_passes loc = (within_bound 90 (Lat loc) \<and> within_bound 180 (Long loc))"

text \<open>A table of candidates that \<open>nearest_loc\<close> can search: not empty, rows passing.\<close>

definition usable :: "candidate list \<Rightarrow> bool" where
  "usable locs = (locs \<noteq> [] \<and> list_all loc_passes locs)"

text \<open>A DataFrame with a \<open>Lat\<close> and a \<open>Long\<close> column whose cells pass that check.\<close>

definition has_coords :: "dataframe \<Rightarrow> bool" where
  "has_coords df =
     (case getitem df ''Lat'' of Inl e \<Rightarrow> False | Inr lats \<Rightarrow>
      case getitem df ''Long'' of Inl e \<Rightarrow> False | Inr longs \<Rightarrow>
      list_all (cell_passes 90) lats \<and> list_all (cell_passes 180) longs)"

section \<open>feature\_engineering.py: the batch loop of the main program\<close>

definition BATCH_SIZE :: nat where
  "BATCH_SIZE = 100"

text \<open>\<open>xs[start:end]\<close> for indices that are not negative.\<close>

definition slice :: "nat \<Rightarrow> nat \<Rightarrow> 'a list \<Rightarrow> 'a list" where
  "slice start end xs = take (end - start) (drop start xs)"

text \<open>\<open>hdbs.iloc[start:end].copy()\<close>: a new object holding the rows of the slice.\<close>

definition iloc_copy :: "nat \<Rightarrow> nat \<Rightarrow> nat \<Rightarrow> world \<Rightarrow> nat \<times> world" where
  "iloc_copy ref start end w =
     (let df = heap w ref;
          batch = \<lparr>columns = columns df, rows = slice start end (rows df)\<rparr>;
          a = next_ref w
      in (a, w\<lparr>heap := (heap w)(a := batch), next_ref := Suc a\<rparr>))"

text \<open>\<open>df.to_csv(path, index=False, mode='a', header=h)\<close>.\<close>

definition to_csv_append :: "nat \<Rightarrow> bool \<Rightarrow> world \<Rightarrow> world" where
  "to_csv_append ref header w =
     (let df = heap w ref;
          lines = (if header then [Header (columns df)] else []) @ map Row (rows df)
      in w\<lparr>out_file := out_file w @ lines, trace := trace w @ [Appended lines]\<rparr>)"

definition sleep :: "nat \<Rightarrow> world \<Rightarrow> world" where
  "sleep secs w = w\<lparr>trace := trace w @ [Slept secs]\<rparr>"

definition batch_count :: "nat \<Rightarrow> nat \<Rightarrow> nat" where
  "batch_count B N = (N + B - 1) div B"

definition batch_start :: "nat \<Rightarrow> nat \<Rightarrow> nat" where
  "batch_start B i = i * B"

definition batch_end :: "nat \<Rightarrow> nat \<Rightarrow> nat \<Rightarrow> nat" where
  "batch_end B N i = min (batch_start B i + B) N"

text \<open>The body of \<open>for i in range(BATCHES)\<close>, over the values of \<open>i\<close> still to come.\<close>

fun batch_loop ::
  "nat \<Rightarrow> (point \<Rightarrow> point \<Rightarrow> real) \<Rightarrow> endpoint \<Rightarrow> nat \<Rightarrow> candidate list \<Rightarrow> candidate list
     \<Rightarrow> candidate list \<Rightarrow> string \<Rightarrow> nat list \<Rightarrow> world \<Rightarrow> (error + unit) \<times> world" where
  "batch_loop B hav srv hdbs mrts malls schools api_token [] w = (Inr (), w)"
| "batch_loop B hav srv hdbs mrts malls schools api_token (i # todo) w =
     (let start = batch_start B i;
          end = batch_end B (length (rows (heap w hdbs))) i;
          (batch, w1) = iloc_copy hdbs start end w
      in case engineer_distance_features hav srv batch mrts malls schools api_token w1 of
           (Inl e, w2) \<Rightarrow> (Inl e, w2)
         | (Inr batch_engineered_features, w2) \<Rightarrow>
             batch_loop B hav srv hdbs mrts malls schools api_token todo
               (sleep 30 (to_csv_append batch_engineered_features False w2)))"

text \<open>
  The main program from \<open>BATCH_SIZE = 100\<close> on, with the batch size as a parameter:
  the token is there, the four tables are read, \<open>hdbs\<close> is the address of the subjects.
\<close>

definition run_batches ::
  "nat \<Rightarrow> (point \<Rightarrow> point \<Rightarrow> real) \<Rightarrow> endpoint \<Rightarrow> nat \<Rightarrow> candidate list \<Rightarrow> candidate list
     \<Rightarrow> candidate list \<Rightarrow> string \<Rightarrow> world \<Rightarrow> (error + unit) \<times> world" where
  "run_batches B hav srv hdbs mrts malls schools api_token w =
     (if B = 0 then (Inl ZeroDivisionError, w)
      else let BATCHES = batch_count B (length (rows (heap w hdbs)))
           in batch_loop B hav srv hdbs mrts malls schools api_token [0..<BATCHES] w)"

definition main_batches ::
  "(point \<Rightarrow> point \<Rightarrow> real) \<Rightarrow> endpoint \<Rightarrow> nat \<Rightarrow> candidate list \<Rightarrow> candidate list
     \<Rightarrow> candidate list \<Rightarrow> string \<Rightarrow> world \<Rightarrow> (error + unit) \<times> world" where
  "main_batches = run_batches BATCH_SIZE"

text \<open>The partition of a list of subjects that the loop walks through.\<close>

definition batches :: "nat \<Rightarrow> 'a list \<Rightarrow> 'a list list" where
  "batches B xs =
     map (\<lambda>i. slice (batch_start B i) (batch_end B (length xs) i) xs)
       [0..<batch_count B (length xs)]"

text \<open>
  The rows of batch \<open>i\<close>, and what one completed pass of the loop body leaves behind: the
  requests it sent and the rows it appended.  \<open>pass_ok\<close> relates such a pass to batch
  \<open>i\<close> of the subjects \<open>df\<close>.
\<close>

definition batch_rows :: "nat \<Rightarrow> dataframe \<Rightarrow> nat \<Rightarrow> pyval list list" where
  "batch_rows B df i = slice (batch_start B i) (batch_end B (length (rows df)) i) (rows df)"

definition pass_events :: "event list \<times> pyval list list \<Rightarrow> event list" where
  "pass_events p = fst p @ [Appended (map Row (snd p)), Slept 30]"

definition pass_lines :: "event list \<times> pyval list list \<Rightarrow> csv_line list" where
  "pass_lines p = map Row (snd p)"

definition pass_ok :: "nat \<Rightarrow> dataframe \<Rightarrow> nat \<Rightarrow> event list \<times> pyval list list \<Rightarrow> bool" where
  "pass_ok B df i p =
     (list_all is_Sent (fst p)
      \<and> length (fst p) = 2 * length (snd p)
      \<and> length (snd p) = length (batch_rows B df i)
      \<and> (wf_frame df \<and> set feature_columns \<inter> set (columns df) = {}
           \<longrightarrow> map (take (length (columns df))) (snd p) = batch_rows B df i))"

text \<open>
  What a trace shows: the sizes of the appends in order, and the number of requests sent
  in each stretch between two pauses (\<open>n\<close> counts the requests of the current stretch).
\<close>

fun appended_sizes :: "event list \<Rightarrow> nat list" where
  "appended_sizes [] = []"
| "appended_sizes (Appended ls # tr) = length ls # appended_sizes tr"
| "appended_sizes (e # tr) = appended_sizes tr"

fun requests_between_pauses :: "nat \<Rightarrow> event list \<Rightarrow> nat list" where
  "requests_between_pauses n [] = [n]"
| "requests_between_pauses n (Sent r # tr) = requests_between_pauses (Suc n) tr"
| "requests_between_pauses n (Slept secs # tr) = n # requests_between_pauses 0 tr"
| "requests_between_pauses n (Appended ls # tr) = requests_between_pauses n tr"

fun cells :: "csv_line \<Rightarrow> pyval list" where
  "cells (Row r) = r"
| "cells (Header h) = map PStr h"

section \<open>data\_cleaning.py: the remaining-lease transform of clean\_data\<close>

text \<open>The characters at which \<open>str.split()\<close> cuts (those with \<open>isspace\<close>, below 256).\<close>

definition is_space :: "char \<Rightarrow> bool" where
  "is_space c = (c \<in> set [CHR 0x09, CHR 0x0A, CHR 0x0B, CHR 0x0C, CHR 0x0D,
                           CHR 0x1C, CHR 0x1D, CHR 0x1E, CHR 0x1F, CHR 0x20,
                           CHR 0x85, CHR 0xA0])"

text \<open>\<open>x.split()\<close>: the maximal runs of characters that are not whitespace.\<close>

fun split_from :: "string \<Rightarrow> string \<Rightarrow> string list" where
  "split_from cur [] = (if cur = [] then [] else [cur])"
| "split_from cur (c # cs) =
     (if is_space c then (if cur = [] then split_from [] cs else cur # split_from [] cs)
      else split_from (cur @ [c]) cs)"

definition py_split :: "string \<Rightarrow> string list" where
  "py_split x = split_from [] x"

text \<open>\<open>xs[i]\<close> for an index that is not negative.\<close>

definition subscript :: "'a list \<Rightarrow> nat \<Rightarrow> error + 'a" where
  "subscript xs i = (if i < length xs then Inr (xs ! i) else Inl IndexError)"

text \<open>\<open>sub in x\<close> on strings.\<close>

fun starts_with :: "string \<Rightarrow> string \<Rightarrow> bool" where
  "starts_with [] x = True"
| "starts_with (s # sub) [] = False"
| "starts_with (s # sub) (c # cs) = (s = c \<and> starts_with sub cs)"

fun contains :: "string \<Rightarrow> string \<Rightarrow> bool" where
  "contains sub [] = (sub = [])"
| "contains sub (c # cs) = (starts_with sub (c # cs) \<or> contains sub cs)"

text \<open>
  \<open>int(s)\<close> on a string without whitespace: an optional sign, then decimal digits, where
  single underscores may stand between digits; \<open>ValueError\<close> otherwise.  (The cap that
  recent versions of Python put on the number of digits, 4300 unless configured, is
  left out.)
\<close>

definition digit_val :: "char \<Rightarrow> nat option" where
  "digit_val c = map_of [(CHR ''0'', 0), (CHR ''1'', 1), (CHR ''2'', 2), (CHR ''3'', 3),
     (CHR ''4'', 4), (CHR ''5'', 5), (CHR ''6'', 6), (CHR ''7'', 7), (CHR ''8'', 8),
     (CHR ''9'', 9)] c"

fun int_digits :: "nat \<Rightarrow> string \<Rightarrow> error + nat" where
  "int_digits acc [] = Inr acc"
| "int_digits acc [c] =
     (case digit_val c of Some d \<Rightarrow> Inr (10 * acc + d) | None \<Rightarrow> Inl ValueError)"
| "int_digits acc (c # c' # cs) =
     (case digit_val c of
        Some d \<Rightarrow> int_digits (10 * acc + d) (c' # cs)
      | None \<Rightarrow>
          if c = CHR ''_'' then
            (case digit_val c' of
               Some d \<Rightarrow> int_digits (10 * acc + d) cs
             | None \<Rightarrow> Inl ValueError)
          else Inl ValueError)"

definition int_unsigned :: "string \<Rightarrow> error + nat" where
  "int_unsigned s =
     (case s of [] \<Rightarrow> Inl ValueError
      | c # cs \<Rightarrow> (case digit_val c of Some d \<Rightarrow> int_digits d cs | None \<Rightarrow> Inl ValueError))"

definition py_int :: "string \<Rightarrow> error + int" where
  "py_int s =
     (case s of [] \<Rightarrow> Inl ValueError
      | c # cs \<Rightarrow>
          if c = CHR ''-'' then
            (case int_unsigned cs of Inl e \<Rightarrow> Inl e | Inr n \<Rightarrow> Inr (- int n))
          else if c = CHR ''+'' then
            (case int_unsigned cs of Inl e \<Rightarrow> Inl e | Inr n \<Rightarrow> Inr (int n))
          else
            (case int_unsigned s of Inl e \<Rightarrow> Inl e | Inr n \<Rightarrow> Inr (int n)))"

text \<open>
  The floats of the program are 64-bit (binary64).  \<open>fl x\<close> is the 64-bit float nearest
  to the real number \<open>x\<close>, as long as that float is finite: \<open>x\<close> is cut to 53
  significant bits (to a multiple of \<open>2 ^ -1074\<close> when it is that small), a value
  half-way between two floats going to the one with the even last bit.  \<open>exponent x\<close> is
  the whole part of the binary logarithm of \<open>\<bar>x\<bar>\<close>, computed from the number of bits of a
  natural number.
\<close>

fun bit_length :: "nat \<Rightarrow> nat" where
  "bit_length n = (if n = 0 then 0 else Suc (bit_length (n div 2)))"

declare bit_length.simps [simp del]

definition exponent :: "real \<Rightarrow> int" where
  "exponent x = (if 1 \<le> \<bar>x\<bar> then int (bit_length (nat \<lfloor>\<bar>x\<bar>\<rfloor>)) - 1
                 else - int (bit_length (nat (\<lceil>1 / \<bar>x\<bar>\<rceil> - 1))))"

definition pow2 :: "int \<Rightarrow> real" where
  "pow2 q = (if 0 \<le> q then 2 ^ nat q else 1 / 2 ^ nat (- q))"

definition round_half_even :: "real \<Rightarrow> int" where
  "round_half_even s =
     (let lower = \<lfloor>s\<rfloor>; rest = s - of_int lower
      in if rest < 1 / 2 then lower
         else if rest > 1 / 2 then lower + 1
         else if even lower then lower else lower + 1)"

definition fl :: "real \<Rightarrow> real" where
  "fl x = (if x = 0 then 0
           else let q = max (exponent x - 52) (- 1074)
                in of_int (round_half_even (x / pow2 q)) * pow2 q)"

text \<open>
  A rounded result that is to be a finite float: \<open>OverflowError\<close> when it is beyond the
  largest one.
\<close>

definition finite_float :: "real \<Rightarrow> error + pyfloat" where
  "finite_float r = (if \<bar>r\<bar> < 2 ^ 1024 then Inr (Fin r) else Inl OverflowError)"

text \<open>
  The conversion of an \<open>int\<close> operand to float in \<open>int + float\<close>, and the true division
  \<open>a / b\<close> of two \<open>int\<close>s: both give the float nearest to the exact value and raise
  \<open>OverflowError\<close> when there is none.
\<close>

definition float_of_int :: "int \<Rightarrow> error + pyfloat" where
  "float_of_int n = finite_float (fl (of_int n))"

definition int_truediv :: "int \<Rightarrow> int \<Rightarrow> error + pyfloat" where
  "int_truediv a b =
     (if b = 0 then Inl ZeroDivisionError else finite_float (fl (of_int a / of_int b)))"

text \<open>The sum of two floats: rounded, and infinite when the rounded sum is out of range.\<close>

fun float_add :: "pyfloat \<Rightarrow> pyfloat \<Rightarrow> pyfloat" where
  "float_add (Fin x) (Fin y) =
     (let r = fl (x + y)
      in if 2 ^ 1024 \<le> r then PosInf else if r \<le> - (2 ^ 1024) then NegInf else Fin r)"
| "float_add NaN b = NaN"
| "float_add a NaN = NaN"
| "float_add PosInf NegInf = NaN"
| "float_add NegInf PosInf = NaN"
| "float_add PosInf b = PosInf"
| "float_add NegInf b = NegInf"
| "float_add (Fin x) b = b"

text \<open>
  \<open>round(x, ndigits)\<close> on a float, for \<open>ndigits\<close> that is not negative: the float nearest
  to the multiple of \<open>10 ^ -ndigits\<close> that is nearest to the exact value of \<open>x\<close>, a value
  half-way between two multiples going to the even one; \<open>x\<close> itself when it is not
  finite or \<open>ndigits\<close> is above 323.
\<close>

fun py_round :: "pyfloat \<Rightarrow> nat \<Rightarrow> error + pyfloat" where
  "py_round (Fin x) ndigits =
     (if 323 < ndigits then Inr (Fin x)
      else finite_float (fl (of_int (round_half_even (x * 10 ^ ndigits)) / 10 ^ ndigits)))"
| "py_round a ndigits = Inr a"

text \<open>
  The function applied to every cell of \<open>remaining_lease\<close>:
  \<open>round(int(x.split()[0]) + (int(x.split()[2]) if "month" in x else 0)/12, 3)\<close>.  The
  quotient is computed first, then the years are converted and added.
\<close>

definition remaining_lease :: "string \<Rightarrow> error + pyfloat" where
  "remaining_lease x =
     (case subscript (py_split x) 0 of Inl e \<Rightarrow> Inl e | Inr y \<Rightarrow>
      case py_int y of Inl e \<Rightarrow> Inl e | Inr years \<Rightarrow>
      case (if contains ''month'' x
            then (case subscript (py_split x) 2 of Inl e \<Rightarrow> Inl e | Inr m \<Rightarrow> py_int m)
            else Inr 0) of Inl e \<Rightarrow> Inl e | Inr months \<Rightarrow>
      case int_truediv months 12 of Inl e \<Rightarrow> Inl e | Inr twelfths \<Rightarrow>
      case float_of_int years of Inl e \<Rightarrow> Inl e | Inr years_float \<Rightarrow>
      py_round (float_add years_float twelfths) 3)"

text \<open>The decimal numeral of a natural number, for writing the lease strings.\<close>

definition digit_char :: "nat \<Rightarrow> char" where
  "digit_char d = ''0123456789'' ! d"

fun decimal :: "nat \<Rightarrow> string" where
  "decimal n = (if n < 10 then [digit_char n] else decimal (n div 10) @ [digit_char (n mod 10)])"

declare decimal.simps [simp del]

section \<open>Data for concrete runs\<close>

text \<open>A stand-in distance for concrete runs: the sum of the coordinate differences.\<close>

definition taxi :: "point \<Rightarrow> point \<Rightarrow> real" where
  "taxi p q = \<bar>fst p - fst q\<bar> + \<bar>snd p - snd q\<bar>"

text \<open>Two small tables of candidates for concrete runs.\<close>

definition three_locs :: "candidate list" where
  "three_locs = [\<lparr>Address = ''A'', Lat = Fin 1, Long = Fin 1\<rparr>,
                 \<lparr>Address = ''B'', Lat = Fin 0, Long = Fin 0\<rparr>,
                 \<lparr>Address = ''C'', Lat = Fin 0, Long = Fin 0\<rparr>]"

definition two_locs :: "candidate list" where
  "two_locs = [\<lparr>Address = ''A'', Lat = Fin 1, Long = Fin 1\<rparr>,
               \<lparr>Address = ''B'', Lat = Fin 0, Long = Fin (1 / 2)\<rparr>]"

text \<open>A world in which nothing has happened yet: no object, an empty file, no event.\<close>

definition empty_world :: world where
  "empty_world = \<lparr>heap = (\<lambda>a. \<lparr>columns = [], rows = []\<rparr>), next_ref = 0, out_file = [], trace = []\<rparr>"

text \<open>
  Data for concrete runs: a table of one subject, a table that already has a column
  called \<open>Nearest_MRT\<close>, the world holding one table at address 0, a table of \<open>n\<close>
  subjects at (0, 0), and an endpoint that never answers.
\<close>

definition one_hdb :: dataframe where
  "one_hdb = \<lparr>columns = [''Address'', ''Lat'', ''Long''],
               rows = [[PStr ''1 MAIN ST'', PNum 0, PNum 0]]\<rparr>"

definition relabelled_hdb :: dataframe where
  "relabelled_hdb = \<lparr>columns = [''Lat'', ''Long'', ''Nearest_MRT''],
                      rows = [[PNum 0, PNum 0, PStr ''old'']]\<rparr>"

definition world_with :: "dataframe \<Rightarrow> world" where
  "world_with df = \<lparr>heap = (\<lambda>a. if a = 0 then df else \<lparr>columns = [], rows = []\<rparr>),
                     next_ref = 1, out_file = [], trace = []\<rparr>"

definition subjects :: "nat \<Rightarrow> dataframe" where
  "subjects n = \<lparr>columns = [''Lat'', ''Long''], rows = replicate n [PNum 0, PNum 0]\<rparr>"

definition unreachable :: endpoint where
  "unreachable n r = Transport_failure"


section \<open>Properties of nearest\_loc\<close>

lemma np_less_Fin [simp]: "np_less (Fin d) (Fin bd) = (d < bd)"
  by (simp add: np_less_def)

lemma fle_Fin [simp]: "fle (Fin x) (Fin y) = (x \<le> y)"
  by (auto simp: fle_def)

lemma argmin_from_spec:
  assumes "bi < i" and "length pre = i" and "pre ! bi = bd"
    and "\<forall>j<i. bd \<le> pre ! j" and "\<forall>j<bi. bd < pre ! j"
  shows "(let k = argmin_from bi (Fin bd) i (map Fin ds); xs = pre @ ds in
           k < length xs \<and> (\<forall>j<length xs. xs ! k \<le> xs ! j) \<and> (\<forall>j<k. xs ! k < xs ! j))"
  using assms
proof (induction ds arbitrary: bi bd i pre)
  case Nil
  then show ?case by (simp add: Let_def)
next
  case (Cons d ds)
  let ?pre = "pre @ [d]"
  show ?case
  proof (cases "d < bd")
    case True
    have a: "i < Suc i" by simp
    have b: "length ?pre = Suc i" using Cons.prems by simp
    have c: "?pre ! i = d" using Cons.prems by (simp add: nth_append)
    have e: "\<forall>j<i. d < ?pre ! j"
    proof (intro allI impI)
      fix j assume j: "j < i"
      then have "bd \<le> pre ! j" using Cons.prems(4) by simp
      then show "d < ?pre ! j" using True j Cons.prems(2) by (simp add: nth_append)
    qed
    have d1: "\<forall>j<Suc i. d \<le> ?pre ! j"
    proof (intro allI impI)
      fix j assume j: "j < Suc i"
      show "d \<le> ?pre ! j"
      proof (cases "j = i")
        case True
        then show ?thesis using c by simp
      next
        case False
        then have "j < i" using j by simp
        then show ?thesis using e by (simp add: less_imp_le)
      qed
    qed
    from Cons.IH[OF a b c d1 e] True show ?thesis by (simp add: Let_def)
  next
    case False
    have a: "bi < Suc i" using Cons.prems by simp
    have b: "length ?pre = Suc i" using Cons.prems by simp
    have c: "?pre ! bi = bd" using Cons.prems by (simp add: nth_append)
    have d1: "\<forall>j<Suc i. bd \<le> ?pre ! j"
      using Cons.prems False by (auto simp: nth_append less_Suc_eq)
    have e: "\<forall>j<bi. bd < ?pre ! j"
      using Cons.prems by (auto simp: nth_append)
    from Cons.IH[OF a b c d1 e] False show ?thesis by (simp add: Let_def)
  qed
qed

lemma argmin_spec:
  assumes "ds \<noteq> []"
  shows "\<exists>k. argmin (map Fin ds) = Inr k \<and> k < length ds
            \<and> (\<forall>j<length ds. ds ! k \<le> ds ! j) \<and> (\<forall>j<k. ds ! k < ds ! j)"
proof -
  from assms obtain d ds' where ds: "ds = d # ds'" by (cases ds) auto
  have "let k = argmin_from 0 (Fin d) 1 (map Fin ds'); xs = [d] @ ds' in
           k < length xs \<and> (\<forall>j<length xs. xs ! k \<le> xs ! j) \<and> (\<forall>j<k. xs ! k < xs ! j)"
    by (rule argmin_from_spec) auto
  then show ?thesis by (simp add: ds argmin_def Let_def)
qed

lemma ensure_lat_lon_in_range:
  "in_range 90 lat \<Longrightarrow> in_range 180 lon \<Longrightarrow> ensure_lat_lon (lat, lon) = Inr ()"
  by (cases lat; cases lon) (auto simp: ensure_lat_lon_def)

lemma haversine_valid:
  assumes "- 90 \<le> la" "la \<le> 90" "- 180 \<le> lo" "lo \<le> 180" and "valid_loc loc"
  shows "haversine hav (Fin la, Fin lo) (Lat loc, Long loc) = Inr (Fin (dist_to hav la lo loc))"
proof -
  from assms(5) obtain a b where ab: "Lat loc = Fin a" "Long loc = Fin b"
    by (cases "Lat loc"; cases "Long loc") (auto simp: valid_loc_def)
  have "ensure_lat_lon (Fin la, Fin lo) = Inr ()"
    using assms(1-4) by (intro ensure_lat_lon_in_range) simp_all
  moreover have "ensure_lat_lon (Lat loc, Long loc) = Inr ()"
    using assms(5) by (intro ensure_lat_lon_in_range) (simp_all add: valid_loc_def)
  ultimately show ?thesis by (simp add: haversine_def ab dist_to_def)
qed

lemma collect_valid:
  assumes "- 90 \<le> la" "la \<le> 90" "- 180 \<le> lo" "lo \<le> 180" and "list_all valid_loc loc_df"
  shows "collect (map (\<lambda>loc. haversine hav (Fin la, Fin lo) (Lat loc, Long loc)) loc_df)
           = Inr (map Fin (map (dist_to hav la lo) loc_df))"
  using assms(5)
proof (induction loc_df)
  case Nil
  then show ?case by simp
next
  case (Cons loc loc_df)
  then have v: "valid_loc loc" and rest: "list_all valid_loc loc_df" by simp_all
  show ?case
    using Cons.IH[OF rest] haversine_valid[OF assms(1-4) v, of hav] by simp
qed

lemma nearest_loc_unfold:
  assumes "loc_df \<noteq> []" and "- 90 \<le> la" "la \<le> 90" "- 180 \<le> lo" "lo \<le> 180"
    and "list_all valid_loc loc_df"
  shows "\<exists>k. k < length loc_df
     \<and> argmin (map Fin (map (dist_to hav la lo) loc_df)) = Inr k
     \<and> nearest_loc hav (PNum la) (PNum lo) loc_df =
         Inr (Address (loc_df ! k), Lat (loc_df ! k), Long (loc_df ! k),
              if dist_to hav la lo (loc_df ! k) = 0 then None
              else Some (dist_to hav la lo (loc_df ! k) \<le> 1))
     \<and> (\<forall>j<length loc_df. dist_to hav la lo (loc_df ! k) \<le> dist_to hav la lo (loc_df ! j))
     \<and> (\<forall>j<k. dist_to hav la lo (loc_df ! k) < dist_to hav la lo (loc_df ! j))"
proof -
  let ?ds = "map (dist_to hav la lo) loc_df"
  have ne: "?ds \<noteq> []" using assms(1) by simp
  from argmin_spec[OF ne] obtain k where k: "argmin (map Fin ?ds) = Inr k" "k < length ?ds"
    "\<forall>j<length ?ds. ?ds ! k \<le> ?ds ! j" "\<forall>j<k. ?ds ! k < ?ds ! j" by blast
  have c: "collect (map (\<lambda>loc. haversine hav (Fin la, Fin lo) (Lat loc, Long loc)) loc_df)
             = Inr (map Fin ?ds)"
    by (rule collect_valid[OF assms(2-6)])
  have kl: "k < length loc_df" using k(2) by simp
  have "nearest_loc hav (PNum la) (PNum lo) loc_df =
         Inr (Address (loc_df ! k), Lat (loc_df ! k), Long (loc_df ! k),
              if dist_to hav la lo (loc_df ! k) = 0 then None
              else Some (dist_to hav la lo (loc_df ! k) \<le> 1))"
    using assms(1) k(1) kl by (simp add: nearest_loc_def c Let_def del: map_map)
  moreover have "\<forall>j<length loc_df. dist_to hav la lo (loc_df ! k) \<le> dist_to hav la lo (loc_df ! j)"
    using k(2,3) by simp
  moreover have "\<forall>j<k. dist_to hav la lo (loc_df ! k) < dist_to hav la lo (loc_df ! j)"
    using k(2,4) by simp
  ultimately show ?thesis using k(1) kl by auto
qed

lemma nearest_loc_minimum:
  assumes "loc_df \<noteq> []" and "- 90 \<le> la" "la \<le> 90" "- 180 \<le> lo" "lo \<le> 180"
    and "list_all valid_loc loc_df"
  shows "\<exists>k. k < length loc_df
     \<and> nearest_loc hav (PNum la) (PNum lo) loc_df =
         Inr (Address (loc_df ! k), Lat (loc_df ! k), Long (loc_df ! k),
              if Min (dist_to hav la lo ` set loc_df) = 0 then None
              else Some (Min (dist_to hav la lo ` set loc_df) \<le> 1))"
proof -
  from nearest_loc_unfold[OF assms, of hav] obtain k where k: "k < length loc_df"
    and r: "nearest_loc hav (PNum la) (PNum lo) loc_df =
         Inr (Address (loc_df ! k), Lat (loc_df ! k), Long (loc_df ! k),
              if dist_to hav la lo (loc_df ! k) = 0 then None
              else Some (dist_to hav la lo (loc_df ! k) \<le> 1))"
    and le: "\<forall>j<length loc_df. dist_to hav la lo (loc_df ! k) \<le> dist_to hav la lo (loc_df ! j)"
    by blast
  have "Min (dist_to hav la lo ` set loc_df) = dist_to hav la lo (loc_df ! k)"
  proof (rule Min_eqI)
    show "finite (dist_to hav la lo ` set loc_df)" by simp
    show "dist_to hav la lo (loc_df ! k) \<in> dist_to hav la lo ` set loc_df"
      using k by simp
    fix y assume "y \<in> dist_to hav la lo ` set loc_df"
    then obtain j where "j < length loc_df" "y = dist_to hav la lo (loc_df ! j)"
      by (auto simp: in_set_conv_nth)
    then show "dist_to hav la lo (loc_df ! k) \<le> y" using le by simp
  qed
  with r k show ?thesis by auto
qed

text \<open>The definitions that a concrete call of \<open>nearest_loc\<close> unfolds.\<close>

lemmas nearest_simps = nearest_loc_def haversine_def ensure_lat_lon_def argmin_def
  np_less_def fle_def Let_def

section \<open>The claims about nearest\_loc\<close>

text \<open>
  C1, as amended: for every non-empty table of candidates whose coordinates are numbers
  with latitude in [-90, 90] and longitude in [-180, 180], and every query point with
  such coordinates, \<open>nearest_loc\<close> returns the address and coordinates of a candidate of
  the table; no candidate of the table is strictly nearer to the query point; and no
  candidate before the returned one in the table is at the same (least) distance, so
  among several nearest candidates the first in the table's order is returned.
\<close>

theorem nearest_loc_first_nearest:
  assumes "loc_df \<noteq> []" and "- 90 \<le> la" "la \<le> 90" "- 180 \<le> lo" "lo \<le> 180"
    and "list_all valid_loc loc_df"
  shows "\<exists>k<length loc_df.
      loc_df ! k \<in> set loc_df
    \<and> (\<exists>near. nearest_loc hav (PNum la) (PNum lo) loc_df =
          Inr (Address (loc_df ! k), Lat (loc_df ! k), Long (loc_df ! k), near))
    \<and> (\<forall>c\<in>set loc_df. \<not> dist_to hav la lo c < dist_to hav la lo (loc_df ! k))
    \<and> (\<forall>j<k. dist_to hav la lo (loc_df ! j) \<noteq> dist_to hav la lo (loc_df ! k))"
proof -
  from nearest_loc_unfold[OF assms, of hav] obtain k where k: "k < length loc_df"
    and r: "nearest_loc hav (PNum la) (PNum lo) loc_df =
         Inr (Address (loc_df ! k), Lat (loc_df ! k), Long (loc_df ! k),
              if dist_to hav la lo (loc_df ! k) = 0 then None
              else Some (dist_to hav la lo (loc_df ! k) \<le> 1))"
    and le: "\<forall>j<length loc_df. dist_to hav la lo (loc_df ! k) \<le> dist_to hav la lo (loc_df ! j)"
    and lt: "\<forall>j<k. dist_to hav la lo (loc_df ! k) < dist_to hav la lo (loc_df ! j)"
    by blast
  have a: "loc_df ! k \<in> set loc_df" using k by simp
  have b: "\<forall>c\<in>set loc_df. \<not> dist_to hav la lo c < dist_to hav la lo (loc_df ! k)"
  proof
    fix c assume "c \<in> set loc_df"
    then obtain j where "j < length loc_df" "c = loc_df ! j" by (auto simp: in_set_conv_nth)
    then show "\<not> dist_to hav la lo c < dist_to hav la lo (loc_df ! k)"
      using le by (simp add: not_less)
  qed
  have c: "\<forall>j<k. dist_to hav la lo (loc_df ! j) \<noteq> dist_to hav la lo (loc_df ! k)"
    using lt by auto
  show ?thesis using k a b c r by blast
qed

text \<open>
  C1 at the query point (0, 0) with three candidates at distances 2, 0 and 0: the
  hypotheses hold and the second candidate, the first of the two nearest, comes back.
\<close>

theorem nearest_loc_first_nearest_witness:
  "three_locs \<noteq> [] \<and> list_all valid_loc three_locs
   \<and> (- 90 :: real) \<le> 0 \<and> (0 :: real) \<le> 90 \<and> (- 180 :: real) \<le> 0 \<and> (0 :: real) \<le> 180
   \<and> (\<exists>k<length three_locs. \<exists>near.
        nearest_loc taxi (PNum 0) (PNum 0) three_locs
        = Inr (Address (three_locs ! k), Lat (three_locs ! k), Long (three_locs ! k), near))
   \<and> nearest_loc taxi (PNum 0) (PNum 0) three_locs = Inr (''B'', Fin 0, Fin 0, None)"
proof -
  have ne: "three_locs \<noteq> []" by (simp add: three_locs_def)
  have v: "list_all valid_loc three_locs" by (simp add: three_locs_def valid_loc_def)
  have q: "(- 90 :: real) \<le> 0" "(0 :: real) \<le> 90" "(- 180 :: real) \<le> 0" "(0 :: real) \<le> 180"
    by simp_all
  have run: "nearest_loc taxi (PNum 0) (PNum 0) three_locs = Inr (''B'', Fin 0, Fin 0, None)"
    by (simp add: three_locs_def nearest_simps taxi_def)
  from nearest_loc_first_nearest[OF ne q v, of taxi]
  have "\<exists>k<length three_locs. \<exists>near. nearest_loc taxi (PNum 0) (PNum 0) three_locs =
          Inr (Address (three_locs ! k), Lat (three_locs ! k), Long (three_locs ! k), near)"
    by blast
  with ne v q run show ?thesis by blast
qed

text \<open>
  The claim C1 as first stated, for every query point and every non-empty table, fails
  in two ways.  For a query point at latitude 91 \<open>haversine\<close> raises \<open>ValueError\<close> and
  no candidate is returned.  And for a table whose first candidate has no latitude (NaN)
  and whose second is at the query point itself, the first candidate is returned.
\<close>

theorem nearest_loc_rejects_latitude_91:
  "nearest_loc taxi (PNum 91) (PNum 0) two_locs = Inl ValueError
   \<and> nearest_loc taxi (PNum 0) (PNum 0)
        [\<lparr>Address = ''N'', Lat = NaN, Long = Fin 0\<rparr>, \<lparr>Address = ''B'', Lat = Fin 0, Long = Fin 0\<rparr>]
       = Inr (''N'', NaN, Fin 0, Some False)
   \<and> haversine taxi (Fin 0, Fin 0) (Fin 0, Fin 0) = Inr (Fin 0)"
  by (simp add: two_locs_def nearest_simps taxi_def)

text \<open>
  C2, as amended: for every non-empty table of candidates whose coordinates are numbers
  with latitude in [-90, 90] and longitude in [-180, 180], and every query point with
  such coordinates, with a distance formula that is never negative, the fourth
  component returned by \<open>nearest_loc\<close> is null exactly when the least computed distance
  is 0, true exactly when that distance is greater than 0 and at most 1 (kilometre),
  and false exactly when it is greater than 1.
\<close>

theorem nearest_loc_within_threshold:
  assumes "loc_df \<noteq> []" and "- 90 \<le> la" "la \<le> 90" "- 180 \<le> lo" "lo \<le> 180"
    and "list_all valid_loc loc_df" and "\<forall>p q. 0 \<le> hav p q"
  shows "\<exists>address lat long near.
      nearest_loc hav (PNum la) (PNum lo) loc_df = Inr (address, lat, long, near)
    \<and> (near = None \<longleftrightarrow> Min (dist_to hav la lo ` set loc_df) = 0)
    \<and> (near = Some True \<longleftrightarrow>
          0 < Min (dist_to hav la lo ` set loc_df) \<and> Min (dist_to hav la lo ` set loc_df) \<le> 1)
    \<and> (near = Some False \<longleftrightarrow> 1 < Min (dist_to hav la lo ` set loc_df))"
proof -
  let ?d = "Min (dist_to hav la lo ` set loc_df)"
  from nearest_loc_minimum[OF assms(1-6), of hav] obtain k where
    r: "nearest_loc hav (PNum la) (PNum lo) loc_df =
         Inr (Address (loc_df ! k), Lat (loc_df ! k), Long (loc_df ! k),
              if ?d = 0 then None else Some (?d \<le> 1))"
    by blast
  have "?d \<in> dist_to hav la lo ` set loc_df"
    using assms(1) by (intro Min_in) auto
  then have nonneg: "0 \<le> ?d" using assms(7) by (auto simp: dist_to_def)
  define w where "w = (if ?d = 0 then None else Some (?d \<le> 1))"
  have w1: "w = None \<longleftrightarrow> ?d = 0" by (simp add: w_def)
  have w2: "w = Some True \<longleftrightarrow> 0 < ?d \<and> ?d \<le> 1" using nonneg by (auto simp: w_def)
  have w3: "w = Some False \<longleftrightarrow> 1 < ?d" using nonneg by (auto simp: w_def)
  have "nearest_loc hav (PNum la) (PNum lo) loc_df =
         Inr (Address (loc_df ! k), Lat (loc_df ! k), Long (loc_df ! k), w)"
    using r by (simp add: w_def)
  then show ?thesis using w1 w2 w3 by (intro exI conjI)
qed

text \<open>
  C2 at the query point (0, 0) with candidates at distances 2 and 1/2: the hypotheses
  hold, and the value returned is true.
\<close>

theorem nearest_loc_within_threshold_witness:
  "two_locs \<noteq> [] \<and> list_all valid_loc two_locs \<and> (\<forall>p q. 0 \<le> taxi p q)
   \<and> (- 90 :: real) \<le> 0 \<and> (0 :: real) \<le> 90 \<and> (- 180 :: real) \<le> 0 \<and> (0 :: real) \<le> 180
   \<and> nearest_loc taxi (PNum 0) (PNum 0) two_locs = Inr (''B'', Fin 0, Fin (1 / 2), Some True)
   \<and> 0 < Min (dist_to taxi 0 0 ` set two_locs)
   \<and> Min (dist_to taxi 0 0 ` set two_locs) \<le> 1"
proof -
  have ne: "two_locs \<noteq> []" by (simp add: two_locs_def)
  have v: "list_all valid_loc two_locs" by (simp add: two_locs_def valid_loc_def)
  have q: "(- 90 :: real) \<le> 0" "(0 :: real) \<le> 90" "(- 180 :: real) \<le> 0" "(0 :: real) \<le> 180"
    by simp_all
  have pos: "\<forall>p q. 0 \<le> taxi p q" by (simp add: taxi_def)
  have run: "nearest_loc taxi (PNum 0) (PNum 0) two_locs = Inr (''B'', Fin 0, Fin (1 / 2), Some True)"
    by (simp add: two_locs_def nearest_simps taxi_def)
  from nearest_loc_within_threshold[OF ne q v pos] run
  have "0 < Min (dist_to taxi 0 0 ` set two_locs) \<and> Min (dist_to taxi 0 0 ` set two_locs) \<le> 1"
    by auto
  with ne v q pos run show ?thesis by blast
qed

text \<open>
  The claim C2 as first stated fails for a query point without a latitude (NaN): every
  computed distance is NaN, which is neither 0 nor greater than 1, and the value
  returned is false.
\<close>

theorem nearest_loc_false_on_nan:
  "nearest_loc taxi PNaN (PNum 0) two_locs = Inr (''A'', Fin 1, Fin 1, Some False)
   \<and> collect (map (\<lambda>loc. haversine taxi (NaN, Fin 0) (Lat loc, Long loc)) two_locs)
       = Inr [NaN, NaN]
   \<and> \<not> fless (Fin 1) NaN \<and> \<not> feq NaN (Fin 0)"
  by (simp add: two_locs_def nearest_simps taxi_def)

text \<open>
  C7: called with an empty table of candidates, \<open>nearest_loc\<close> does not return a result:
  the call raises (the \<open>ValueError\<close> of \<open>np.argmin\<close> on an empty sequence), whatever the
  query point.
\<close>

theorem nearest_loc_empty_fails:
  "nearest_loc hav hdb_lat hdb_lon [] = Inl ValueError"
  by (simp add: nearest_loc_def)

section \<open>Properties of get\_distance and of the enrichment loop\<close>

lemma get_distance_eq:
  "get_distance srv a b c d tok w =
     (Inr (distance_of (srv (sent_count w) (route_request a b c d tok))),
      w\<lparr>trace := trace w @ [Sent (route_request a b c d tok)]\<rparr>)"
proof (cases "srv (sent_count w) (route_request a b c d tok)")
  case Transport_failure
  then show ?thesis
    by (simp add: get_distance_def get_distance_try_def requests_get_def Let_def)
next
  case (Response status bd)
  show ?thesis
  proof (cases bd)
    case Malformed
    with Response show ?thesis
      by (simp add: get_distance_def get_distance_try_def requests_get_def Let_def
          raise_for_status_def response_json_def)
  next
    case (Json js)
    with Response show ?thesis
      by (simp add: get_distance_def get_distance_try_def requests_get_def Let_def
          raise_for_status_def response_json_def split: sum.splits)
  qed
qed

lemma subject_step_world:
  assumes "subject_step hav srv mrts malls schools tok lat lon w = (r, w')"
  shows "\<exists>reqs. w' = w\<lparr>trace := trace w @ reqs\<rparr> \<and> list_all is_Sent reqs \<and> length reqs \<le> 2
           \<and> (\<forall>x. r = Inr x \<longrightarrow> length reqs = 2)"
proof (cases "nearest_loc hav lat lon mrts")
  case (Inl e)
  with assms have "w' = w\<lparr>trace := trace w @ []\<rparr>" "r = Inl e"
    by (auto simp: subject_step_def)
  then show ?thesis by (intro exI[of _ "[]"]) simp
next
  case mrt: (Inr m)
  obtain a1 b1 c1 d1 where m: "m = (a1, b1, c1, d1)" by (cases m) auto
  let ?r1 = "route_request lat lon (num_cell b1) (num_cell c1) tok"
  let ?w1 = "w\<lparr>trace := trace w @ [Sent ?r1]\<rparr>"
  show ?thesis
  proof (cases "nearest_loc hav lat lon malls")
    case (Inl e)
    with assms mrt m have "w' = w\<lparr>trace := trace w @ [Sent ?r1]\<rparr>" "r = Inl e"
      by (auto simp: subject_step_def get_distance_eq)
    then show ?thesis by (intro exI[of _ "[Sent ?r1]"]) simp
  next
    case mall: (Inr m2)
    obtain a2 b2 c2 d2 where m2: "m2 = (a2, b2, c2, d2)" by (cases m2) auto
    let ?r2 = "route_request lat lon (num_cell b2) (num_cell c2) tok"
    have "w' = w\<lparr>trace := trace w @ [Sent ?r1, Sent ?r2]\<rparr>"
      using assms mrt m mall m2
      by (auto simp: subject_step_def get_distance_eq split: sum.splits prod.splits)
    then show ?thesis by (intro exI[of _ "[Sent ?r1, Sent ?r2]"]) simp
  qed
qed

lemma enrich_loop_world:
  assumes "enrich_loop hav srv mrts malls schools tok pairs fs w = (r, w')"
  shows "\<exists>reqs. w' = w\<lparr>trace := trace w @ reqs\<rparr> \<and> list_all is_Sent reqs
           \<and> length reqs \<le> 2 * length pairs
           \<and> (\<forall>fs'. r = Inr fs' \<longrightarrow> length reqs = 2 * length pairs
                \<and> length (nearest_mrt fs') = length (nearest_mrt fs) + length pairs
                \<and> length (mrt_distances fs') = length (mrt_distances fs) + length pairs
                \<and> length (nearest_mall fs') = length (nearest_mall fs) + length pairs
                \<and> length (mall_distances fs') = length (mall_distances fs) + length pairs
                \<and> length (nearest_school fs') = length (nearest_school fs) + length pairs
                \<and> length (within_1km fs') = length (within_1km fs) + length pairs)"
  using assms
proof (induction pairs arbitrary: fs w)
  case Nil
  then have "w' = w\<lparr>trace := trace w @ []\<rparr>" "r = Inr fs" by auto
  then show ?case by (intro exI[of _ "[]"]) simp
next
  case (Cons p pairs)
  obtain lat lon where p: "p = (lat, lon)" by (cases p) auto
  obtain r1 w1 where s: "subject_step hav srv mrts malls schools tok lat lon w = (r1, w1)"
    by (cases "subject_step hav srv mrts malls schools tok lat lon w") auto
  from subject_step_world[OF s] obtain reqs1 where
    w1: "w1 = w\<lparr>trace := trace w @ reqs1\<rparr>" and s1: "list_all is_Sent reqs1"
    and l1: "length reqs1 \<le> 2" and e1: "\<forall>x. r1 = Inr x \<longrightarrow> length reqs1 = 2" by blast
  show ?case
  proof (cases r1)
    case (Inl e)
    with Cons.prems p s have "w' = w1" "r = Inl e" by auto
    with w1 s1 l1 show ?thesis by (intro exI[of _ reqs1]) simp
  next
    case (Inr x)
    obtain a b c d e f where x: "x = (a, b, c, d, e, f)" by (cases x) auto
    let ?fs = "\<lparr>nearest_mrt = nearest_mrt fs @ [a],
             mrt_distances = mrt_distances fs @ [b],
             nearest_mall = nearest_mall fs @ [c],
             mall_distances = mall_distances fs @ [d],
             nearest_school = nearest_school fs @ [e],
             within_1km = within_1km fs @ [f]\<rparr>"
    have rec: "enrich_loop hav srv mrts malls schools tok pairs ?fs w1 = (r, w')"
      using Cons.prems p s Inr x by simp
    from Cons.IH[OF rec] obtain reqs2 where
      w2: "w' = w1\<lparr>trace := trace w1 @ reqs2\<rparr>" and s2: "list_all is_Sent reqs2"
      and l2: "length reqs2 \<le> 2 * length pairs"
      and e2: "\<forall>fs'. r = Inr fs' \<longrightarrow> length reqs2 = 2 * length pairs
                \<and> length (nearest_mrt fs') = length (nearest_mrt ?fs) + length pairs
                \<and> length (mrt_distances fs') = length (mrt_distances ?fs) + length pairs
                \<and> length (nearest_mall fs') = length (nearest_mall ?fs) + length pairs
                \<and> length (mall_distances fs') = length (mall_distances ?fs) + length pairs
                \<and> length (nearest_school fs') = length (nearest_school ?fs) + length pairs
                \<and> length (within_1km fs') = length (within_1km ?fs) + length pairs"
      by blast
    have l1': "length reqs1 = 2" using e1 Inr by blast
    have "w' = w\<lparr>trace := trace w @ (reqs1 @ reqs2)\<rparr>" using w1 w2 by simp
    moreover have "list_all is_Sent (reqs1 @ reqs2)" using s1 s2 by simp
    moreover have "length (reqs1 @ reqs2) \<le> 2 * length (p # pairs)" using l1 l2 by simp
    moreover have "\<forall>fs'. r = Inr fs' \<longrightarrow> length (reqs1 @ reqs2) = 2 * length (p # pairs)
                \<and> length (nearest_mrt fs') = length (nearest_mrt fs) + length (p # pairs)
                \<and> length (mrt_distances fs') = length (mrt_distances fs) + length (p # pairs)
                \<and> length (nearest_mall fs') = length (nearest_mall fs) + length (p # pairs)
                \<and> length (mall_distances fs') = length (mall_distances fs) + length (p # pairs)
                \<and> length (nearest_school fs') = length (nearest_school fs) + length (p # pairs)
                \<and> length (within_1km fs') = length (within_1km fs) + length (p # pairs)"
      using e2 l1' by simp
    ultimately show ?thesis by blast
  qed
qed

lemma index_of_None: "index_of xs c = None \<longleftrightarrow> c \<notin> set xs"
  by (induction xs) auto

lemma index_of_Some: "index_of xs c = Some j \<Longrightarrow> j < length xs \<and> xs ! j = c"
  by (induction xs arbitrary: j) (auto split: if_splits)

lemma getitem_length: "getitem df c = Inr vals \<Longrightarrow> length vals = length (rows df)"
  by (auto simp: getitem_def split: option.splits)

lemma setitem_rows: "setitem df c vals = Inr df' \<Longrightarrow> length (rows df') = length (rows df)"
  by (auto simp: setitem_def add_column_def replace_column_def split: if_splits option.splits)

lemma setitem_fresh:
  assumes "c \<notin> set (columns df)" and "length vals = length (rows df)"
  shows "setitem df c vals = Inr (add_column df c vals)"
  using assms by (simp add: setitem_def index_of_None[THEN iffD2])

lemma setcol_world:
  assumes "setcol ref c vals w = (r, w')"
  shows "\<exists>df'. w' = w\<lparr>heap := (heap w)(ref := df')\<rparr>
            \<and> length (rows df') = length (rows (heap w ref))"
proof (cases "setitem (heap w ref) c vals")
  case (Inl e)
  with assms have "w' = w\<lparr>heap := (heap w)(ref := heap w ref)\<rparr>" by (auto simp: setcol_def)
  then show ?thesis by blast
next
  case (Inr df')
  with assms have "w' = w\<lparr>heap := (heap w)(ref := df')\<rparr>" by (auto simp: setcol_def)
  with setitem_rows[OF Inr] show ?thesis by blast
qed

lemma seq_setcol_world:
  assumes "seq (setcol ref c vals) (\<lambda>_. k) w = (r, w')"
    and k: "\<And>w1 r1 w2. k w1 = (r1, w2) \<Longrightarrow> \<exists>df'. w2 = w1\<lparr>heap := (heap w1)(ref := df')\<rparr>
            \<and> length (rows df') = length (rows (heap w1 ref)) \<and> (\<forall>x. r1 = Inr x \<longrightarrow> x = ref)"
  shows "\<exists>df'. w' = w\<lparr>heap := (heap w)(ref := df')\<rparr>
            \<and> length (rows df') = length (rows (heap w ref)) \<and> (\<forall>x. r = Inr x \<longrightarrow> x = ref)"
proof -
  obtain r0 w0 where s: "setcol ref c vals w = (r0, w0)" by (cases "setcol ref c vals w") auto
  from setcol_world[OF s] obtain df0 where w0: "w0 = w\<lparr>heap := (heap w)(ref := df0)\<rparr>"
    and l0: "length (rows df0) = length (rows (heap w ref))" by blast
  show ?thesis
  proof (cases r0)
    case (Inl e)
    with assms(1) s have "w' = w0" "r = Inl e" by (auto simp: seq_def)
    with w0 l0 show ?thesis by auto
  next
    case (Inr u)
    with assms(1) s have "k w0 = (r, w')" by (auto simp: seq_def)
    from k[OF this] obtain df1 where "w' = w0\<lparr>heap := (heap w0)(ref := df1)\<rparr>"
      "length (rows df1) = length (rows (heap w0 ref))" "\<forall>x. r = Inr x \<longrightarrow> x = ref" by blast
    with w0 l0 show ?thesis by (intro exI[of _ df1]) simp
  qed
qed

lemma assign_features_world:
  assumes "assign_features ref fs w = (r, w')"
  shows "\<exists>df'. w' = w\<lparr>heap := (heap w)(ref := df')\<rparr>
            \<and> length (rows df') = length (rows (heap w ref)) \<and> (\<forall>x. r = Inr x \<longrightarrow> x = ref)"
  using assms unfolding assign_features_def
  apply (elim seq_setcol_world)
  apply (intro exI[of _ "heap _ ref"])
  apply auto
  done

lemma engineer_world:
  assumes "engineer_distance_features hav srv ref mrts malls schools tok w = (r, w')"
  shows "\<exists>reqs df'. w' = w\<lparr>trace := trace w @ reqs, heap := (heap w)(ref := df')\<rparr>
           \<and> list_all is_Sent reqs
           \<and> length reqs \<le> 2 * length (rows (heap w ref))
           \<and> length (rows df') = length (rows (heap w ref))
           \<and> (\<forall>x. r = Inr x \<longrightarrow> x = ref \<and> length reqs = 2 * length (rows (heap w ref)))"
proof -
  let ?df = "heap w ref"
  have same: "w = w\<lparr>trace := trace w @ [], heap := (heap w)(ref := ?df)\<rparr>" by simp
  show ?thesis
  proof (cases "getitem ?df ''Lat''")
    case (Inl e)
    with assms have "w' = w" "r = Inl e"
      by (auto simp: engineer_distance_features_def seq_def getcol_def)
    then show ?thesis using same by (intro exI[of _ "[]"] exI[of _ ?df]) simp
  next
    case lats: (Inr lats)
    show ?thesis
    proof (cases "getitem ?df ''Long''")
      case (Inl e)
      with assms lats have "w' = w" "r = Inl e"
        by (auto simp: engineer_distance_features_def seq_def getcol_def)
      then show ?thesis using same by (intro exI[of _ "[]"] exI[of _ ?df]) simp
    next
      case longs: (Inr longs)
      have len: "length (zip lats longs) = length (rows ?df)"
        using getitem_length[OF lats] getitem_length[OF longs] by simp
      obtain r1 w1 where loop:
        "enrich_loop hav srv mrts malls schools tok (zip lats longs) no_features w = (r1, w1)"
        by (cases "enrich_loop hav srv mrts malls schools tok (zip lats longs) no_features w") auto
      from enrich_loop_world[OF loop] len obtain reqs where
        w1: "w1 = w\<lparr>trace := trace w @ reqs\<rparr>" and s: "list_all is_Sent reqs"
        and l: "length reqs \<le> 2 * length (rows ?df)"
        and e: "\<forall>fs'. r1 = Inr fs' \<longrightarrow> length reqs = 2 * length (rows ?df)"
        by auto
      show ?thesis
      proof (cases r1)
        case (Inl e)
        with assms lats longs loop have "w' = w1" "r = Inl e"
          by (auto simp: engineer_distance_features_def seq_def getcol_def)
        with w1 s l show ?thesis by (intro exI[of _ reqs] exI[of _ ?df]) simp
      next
        case (Inr fs)
        with assms lats longs loop have a: "assign_features ref fs w1 = (r, w')"
          by (auto simp: engineer_distance_features_def seq_def getcol_def)
        from assign_features_world[OF a] obtain df' where
          "w' = w1\<lparr>heap := (heap w1)(ref := df')\<rparr>"
          "length (rows df') = length (rows (heap w1 ref))" "\<forall>x. r = Inr x \<longrightarrow> x = ref"
          by blast
        with w1 s l e Inr show ?thesis by (intro exI[of _ reqs] exI[of _ df']) simp
      qed
    qed
  qed
qed

lemma add_column_simps:
  "columns (add_column df c vals) = columns df @ [c]"
  "length vals = length (rows df) \<Longrightarrow> length (rows (add_column df c vals)) = length (rows df)"
  by (simp_all add: add_column_def)

lemma add_column_nth:
  "length vals = length (rows df) \<Longrightarrow> i < length (rows df) \<Longrightarrow>
     rows (add_column df c vals) ! i = rows df ! i @ [vals ! i]"
  by (simp add: add_column_def)

lemma setcol_fresh:
  assumes "c \<notin> set (columns (heap w ref))" and "length vals = length (rows (heap w ref))"
  shows "setcol ref c vals w = (Inr (), w\<lparr>heap := (heap w)(ref := add_column (heap w ref) c vals)\<rparr>)"
  using assms by (simp add: setcol_def setitem_fresh)

lemma assign_features_fresh:
  assumes fresh: "set feature_columns \<inter> set (columns (heap w ref)) = {}"
    and len: "length (nearest_mrt fs) = length (rows (heap w ref))"
      "length (mrt_distances fs) = length (rows (heap w ref))"
      "length (nearest_mall fs) = length (rows (heap w ref))"
      "length (mall_distances fs) = length (rows (heap w ref))"
      "length (nearest_school fs) = length (rows (heap w ref))"
      "length (within_1km fs) = length (rows (heap w ref))"
  shows "assign_features ref fs w =
           (Inr ref, w\<lparr>heap := (heap w)(ref := with_features (heap w ref) fs)\<rparr>)"
  using assms
  by (simp add: assign_features_def seq_def setcol_fresh add_column_simps with_features_def
      feature_columns_def)

lemma engineer_success_shape:
  assumes "engineer_distance_features hav srv ref mrts malls schools tok w = (Inr x, w')"
  shows "\<exists>lats longs fs reqs.
       getitem (heap w ref) ''Lat'' = Inr lats \<and> getitem (heap w ref) ''Long'' = Inr longs
     \<and> enrich_loop hav srv mrts malls schools tok (zip lats longs) no_features w
         = (Inr fs, w\<lparr>trace := trace w @ reqs\<rparr>)
     \<and> list_all is_Sent reqs \<and> length reqs = 2 * length (rows (heap w ref))
     \<and> length (nearest_mrt fs) = length (rows (heap w ref))
     \<and> length (mrt_distances fs) = length (rows (heap w ref))
     \<and> length (nearest_mall fs) = length (rows (heap w ref))
     \<and> length (mall_distances fs) = length (rows (heap w ref))
     \<and> length (nearest_school fs) = length (rows (heap w ref))
     \<and> length (within_1km fs) = length (rows (heap w ref))
     \<and> assign_features ref fs (w\<lparr>trace := trace w @ reqs\<rparr>) = (Inr x, w')"
proof -
  let ?df = "heap w ref"
  from assms obtain lats where lats: "getitem ?df ''Lat'' = Inr lats"
    by (cases "getitem ?df ''Lat''") (auto simp: engineer_distance_features_def seq_def getcol_def)
  from assms lats obtain longs where longs: "getitem ?df ''Long'' = Inr longs"
    by (cases "getitem ?df ''Long''") (auto simp: engineer_distance_features_def seq_def getcol_def)
  have len: "length (zip lats longs) = length (rows ?df)"
    using getitem_length[OF lats] getitem_length[OF longs] by simp
  obtain r1 w1 where loop:
    "enrich_loop hav srv mrts malls schools tok (zip lats longs) no_features w = (r1, w1)"
    by (cases "enrich_loop hav srv mrts malls schools tok (zip lats longs) no_features w") auto
  from assms lats longs loop obtain fs where fs: "r1 = Inr fs"
    by (cases r1) (auto simp: engineer_distance_features_def seq_def getcol_def)
  from assms lats longs loop fs have a: "assign_features ref fs w1 = (Inr x, w')"
    by (auto simp: engineer_distance_features_def seq_def getcol_def)
  from enrich_loop_world[OF loop] fs len obtain reqs where
    "w1 = w\<lparr>trace := trace w @ reqs\<rparr>" "list_all is_Sent reqs"
    "length reqs = 2 * length (rows ?df)"
    "length (nearest_mrt fs) = length (rows ?df)"
    "length (mrt_distances fs) = length (rows ?df)"
    "length (nearest_mall fs) = length (rows ?df)"
    "length (mall_distances fs) = length (rows ?df)"
    "length (nearest_school fs) = length (rows ?df)"
    "length (within_1km fs) = length (rows ?df)"
    by (auto simp: no_features_def)
  with lats longs loop fs a show ?thesis by blast
qed

lemma engineer_fresh:
  assumes run: "engineer_distance_features hav srv ref mrts malls schools tok w = (Inr x, w')"
    and fresh: "set feature_columns \<inter> set (columns (heap w ref)) = {}"
  shows "\<exists>fs reqs. x = ref
     \<and> w' = w\<lparr>trace := trace w @ reqs, heap := (heap w)(ref := with_features (heap w ref) fs)\<rparr>
     \<and> list_all is_Sent reqs \<and> length reqs = 2 * length (rows (heap w ref))
     \<and> length (nearest_mrt fs) = length (rows (heap w ref))
     \<and> length (mrt_distances fs) = length (rows (heap w ref))
     \<and> length (nearest_mall fs) = length (rows (heap w ref))
     \<and> length (mall_distances fs) = length (rows (heap w ref))
     \<and> length (nearest_school fs) = length (rows (heap w ref))
     \<and> length (within_1km fs) = length (rows (heap w ref))"
proof -
  from engineer_success_shape[OF run] obtain fs reqs where
    s: "list_all is_Sent reqs" "length reqs = 2 * length (rows (heap w ref))"
    and l: "length (nearest_mrt fs) = length (rows (heap w ref))"
     "length (mrt_distances fs) = length (rows (heap w ref))"
     "length (nearest_mall fs) = length (rows (heap w ref))"
     "length (mall_distances fs) = length (rows (heap w ref))"
     "length (nearest_school fs) = length (rows (heap w ref))"
     "length (within_1km fs) = length (rows (heap w ref))"
    and a: "assign_features ref fs (w\<lparr>trace := trace w @ reqs\<rparr>) = (Inr x, w')"
    by blast
  let ?w1 = "w\<lparr>trace := trace w @ reqs\<rparr>"
  have "assign_features ref fs ?w1 =
          (Inr ref, ?w1\<lparr>heap := (heap ?w1)(ref := with_features (heap ?w1 ref) fs)\<rparr>)"
    by (rule assign_features_fresh) (use fresh l in simp_all)
  with a have "x = ref"
    "w' = w\<lparr>trace := trace w @ reqs, heap := (heap w)(ref := with_features (heap w ref) fs)\<rparr>"
    by auto
  with s l show ?thesis by blast
qed

lemma ensure_lat_lon_passes:
  "within_bound 90 la \<Longrightarrow> within_bound 180 lo \<Longrightarrow> ensure_lat_lon (la, lo) = Inr ()"
  by (simp add: ensure_lat_lon_def within_bound_def)

lemma haversine_ok:
  assumes "within_bound 90 la" "within_bound 180 lo" "loc_passes loc"
  shows "\<exists>d. haversine hav (la, lo) (Lat loc, Long loc) = Inr d"
proof -
  have "ensure_lat_lon (la, lo) = Inr ()" using assms(1,2) by (rule ensure_lat_lon_passes)
  moreover have "ensure_lat_lon (Lat loc, Long loc) = Inr ()"
    using assms(3) by (intro ensure_lat_lon_passes) (simp_all add: loc_passes_def)
  ultimately show ?thesis
    by (cases la; cases lo; cases "Lat loc"; cases "Long loc") (simp_all add: haversine_def)
qed

lemma collect_ok:
  assumes "\<forall>x\<in>set xs. \<exists>v. f x = Inr v"
  shows "\<exists>vs. collect (map f xs) = Inr vs \<and> length vs = length xs"
  using assms
proof (induction xs)
  case Nil
  then show ?case by simp
next
  case (Cons x xs)
  then obtain v vs where "f x = Inr v" "collect (map f xs) = Inr vs" "length vs = length xs"
    by auto
  then show ?case by simp
qed

lemma nearest_loc_ok:
  assumes "usable loc_df" "cell_passes 90 lat" "cell_passes 180 lon"
  shows "\<exists>a b c d. nearest_loc hav lat lon loc_df = Inr (a, b, c, d)"
proof -
  from assms(2,3) obtain la lo where f: "as_float lat = Inr la" "as_float lon = Inr lo"
    and q: "within_bound 90 la" "within_bound 180 lo"
    by (auto simp: cell_passes_def split: sum.splits)
  from assms(1) have ne: "loc_df \<noteq> []" and locs: "list_all loc_passes loc_df"
    by (simp_all add: usable_def)
  have "\<forall>loc\<in>set loc_df. \<exists>d. haversine hav (la, lo) (Lat loc, Long loc) = Inr d"
    using locs haversine_ok[OF q] by (auto simp: list_all_iff)
  from collect_ok[OF this] obtain dists where
    c: "collect (map (\<lambda>loc. haversine hav (la, lo) (Lat loc, Long loc)) loc_df) = Inr dists"
    and l: "length dists = length loc_df" by blast
  from l ne obtain d ds where "dists = d # ds" by (cases dists) auto
  then have "\<exists>k. argmin dists = Inr k" by (simp add: argmin_def)
  then show ?thesis using ne f c by (auto simp: nearest_loc_def Let_def)
qed

lemma sent_count_snoc [simp]:
  "sent_count (w\<lparr>trace := trace w @ [Sent r]\<rparr>) = Suc (sent_count w)"
  by (simp add: sent_count_def)

lemma subject_step_ok:
  assumes "nearest_loc hav lat lon mrts = Inr (mrt, mrt_lat, mrt_long, n1)"
    and "nearest_loc hav lat lon malls = Inr (mall, mall_lat, mall_long, n2)"
    and "nearest_loc hav lat lon schools = Inr (school, school_lat, school_long, n3)"
  shows "subject_step hav srv mrts malls schools tok lat lon w =
    (Inr (PStr mrt,
          distance_of (srv (sent_count w) (route_request lat lon (num_cell mrt_lat) (num_cell mrt_long) tok)),
          PStr mall,
          distance_of (srv (Suc (sent_count w))
             (route_request lat lon (num_cell mall_lat) (num_cell mall_long) tok)),
          PStr school, tristate n3),
     w\<lparr>trace := trace w @ [Sent (route_request lat lon (num_cell mrt_lat) (num_cell mrt_long) tok),
                            Sent (route_request lat lon (num_cell mall_lat) (num_cell mall_long) tok)]\<rparr>)"
  using assms by (simp add: subject_step_def get_distance_eq)

lemma enrich_loop_ok:
  assumes "usable mrts" "usable malls" "usable schools"
    and "list_all (\<lambda>p. cell_passes 90 (fst p) \<and> cell_passes 180 (snd p)) pairs"
  shows "\<exists>fs' w'. enrich_loop hav srv mrts malls schools tok pairs fs w = (Inr fs', w')"
  using assms(4)
proof (induction pairs arbitrary: fs w)
  case Nil
  then show ?case by simp
next
  case (Cons p pairs)
  obtain lat lon where p: "p = (lat, lon)" by (cases p) auto
  from Cons.prems p have num: "cell_passes 90 lat" "cell_passes 180 lon" by auto
  from nearest_loc_ok[OF assms(1) num] obtain a1 b1 c1 d1 where
    m1: "nearest_loc hav lat lon mrts = Inr (a1, b1, c1, d1)" by blast
  from nearest_loc_ok[OF assms(2) num] obtain a2 b2 c2 d2 where
    m2: "nearest_loc hav lat lon malls = Inr (a2, b2, c2, d2)" by blast
  from nearest_loc_ok[OF assms(3) num] obtain a3 b3 c3 d3 where
    m3: "nearest_loc hav lat lon schools = Inr (a3, b3, c3, d3)" by blast
  from Cons.prems have rest:
    "list_all (\<lambda>p. cell_passes 90 (fst p) \<and> cell_passes 180 (snd p)) pairs" by simp
  show ?case
    using Cons.IH[OF rest] by (simp add: p subject_step_ok[OF m1 m2 m3])
qed

lemma setcol_ok:
  assumes "length vals = length (rows (heap w ref))"
  shows "\<exists>df'. setcol ref c vals w = (Inr (), w\<lparr>heap := (heap w)(ref := df')\<rparr>)
           \<and> length (rows df') = length (rows (heap w ref))"
proof -
  from assms obtain df' where s: "setitem (heap w ref) c vals = Inr df'"
    by (cases "index_of (columns (heap w ref)) c") (auto simp: setitem_def)
  from setitem_rows[OF s] s show ?thesis by (auto simp: setcol_def)
qed

lemma assign_features_ok:
  assumes len: "length (nearest_mrt fs) = length (rows (heap w ref))"
      "length (mrt_distances fs) = length (rows (heap w ref))"
      "length (nearest_mall fs) = length (rows (heap w ref))"
      "length (mall_distances fs) = length (rows (heap w ref))"
      "length (nearest_school fs) = length (rows (heap w ref))"
      "length (within_1km fs) = length (rows (heap w ref))"
  shows "\<exists>w'. assign_features ref fs w = (Inr ref, w')"
proof -
  let ?n = "length (rows (heap w ref))"
  let ?W = "\<lambda>d. w\<lparr>heap := (heap w)(ref := d)\<rparr>"
  from setcol_ok[of "nearest_mrt fs" w ref "''Nearest_MRT''"] len obtain d1 where
    1: "setcol ref ''Nearest_MRT'' (nearest_mrt fs) w = (Inr (), ?W d1)"
    and l1: "length (rows d1) = ?n" by auto
  from setcol_ok[of "mrt_distances fs" "?W d1" ref "''Distance_MRT''"] len l1 obtain d2 where
    2: "setcol ref ''Distance_MRT'' (mrt_distances fs) (?W d1) = (Inr (), ?W d2)"
    and l2: "length (rows d2) = ?n" by auto
  from setcol_ok[of "nearest_mall fs" "?W d2" ref "''Nearest_Mall''"] len l2 obtain d3 where
    3: "setcol ref ''Nearest_Mall'' (nearest_mall fs) (?W d2) = (Inr (), ?W d3)"
    and l3: "length (rows d3) = ?n" by auto
  from setcol_ok[of "mall_distances fs" "?W d3" ref "''Distance_Mall''"] len l3 obtain d4 where
    4: "setcol ref ''Distance_Mall'' (mall_distances fs) (?W d3) = (Inr (), ?W d4)"
    and l4: "length (rows d4) = ?n" by auto
  from setcol_ok[of "nearest_school fs" "?W d4" ref "''Nearest_Pri_Sch''"] len l4 obtain d5 where
    5: "setcol ref ''Nearest_Pri_Sch'' (nearest_school fs) (?W d4) = (Inr (), ?W d5)"
    and l5: "length (rows d5) = ?n" by auto
  from setcol_ok[of "within_1km fs" "?W d5" ref "''Within_1km_of_Pri''"] len l5 obtain d6 where
    6: "setcol ref ''Within_1km_of_Pri'' (within_1km fs) (?W d5) = (Inr (), ?W d6)"
    by auto
  show ?thesis
    unfolding assign_features_def seq_def by (simp add: 1 2 3 4 5 6)
qed

lemma has_coords_pairs:
  assumes "has_coords df"
  shows "\<exists>lats longs. getitem df ''Lat'' = Inr lats \<and> getitem df ''Long'' = Inr longs
     \<and> list_all (\<lambda>p. cell_passes 90 (fst p) \<and> cell_passes 180 (snd p)) (zip lats longs)"
proof -
  from assms obtain lats longs where g: "getitem df ''Lat'' = Inr lats" "getitem df ''Long'' = Inr longs"
    and n: "list_all (cell_passes 90) lats" "list_all (cell_passes 180) longs"
    by (auto simp: has_coords_def split: sum.splits)
  have "list_all (\<lambda>p. cell_passes 90 (fst p) \<and> cell_passes 180 (snd p)) (zip lats longs)"
    using n by (auto simp: list_all_iff dest: set_zip_leftD set_zip_rightD)
  with g show ?thesis by blast
qed

lemma engineer_ok:
  assumes "has_coords (heap w ref)" "usable mrts" "usable malls" "usable schools"
  shows "\<exists>w'. engineer_distance_features hav srv ref mrts malls schools tok w = (Inr ref, w')"
proof -
  let ?df = "heap w ref"
  from has_coords_pairs[OF assms(1)] obtain lats longs where
    g: "getitem ?df ''Lat'' = Inr lats" "getitem ?df ''Long'' = Inr longs"
    and n: "list_all (\<lambda>p. cell_passes 90 (fst p) \<and> cell_passes 180 (snd p)) (zip lats longs)"
    by blast
  have len: "length (zip lats longs) = length (rows ?df)"
    using getitem_length[OF g(1)] getitem_length[OF g(2)] by simp
  from enrich_loop_ok[OF assms(2,3,4) n, of hav srv tok no_features w] obtain fs w1 where
    loop: "enrich_loop hav srv mrts malls schools tok (zip lats longs) no_features w = (Inr fs, w1)"
    by blast
  from enrich_loop_world[OF loop] len obtain reqs where
    w1: "w1 = w\<lparr>trace := trace w @ reqs\<rparr>"
    and l: "length (nearest_mrt fs) = length (rows ?df)"
    "length (mrt_distances fs) = length (rows ?df)"
    "length (nearest_mall fs) = length (rows ?df)"
    "length (mall_distances fs) = length (rows ?df)"
    "length (nearest_school fs) = length (rows ?df)"
    "length (within_1km fs) = length (rows ?df)"
    by (auto simp: no_features_def)
  have "\<exists>w'. assign_features ref fs w1 = (Inr ref, w')"
    by (rule assign_features_ok) (use w1 l in simp_all)
  then show ?thesis
    using g loop by (auto simp: engineer_distance_features_def seq_def getcol_def)
qed






lemma usable_two_locs: "usable two_locs"
  by (simp add: usable_def two_locs_def loc_passes_def within_bound_def)



section \<open>The claim about get\_distance\<close>

text \<open>
  C6: for every pair of points, every token and every behaviour of the endpoint,
  \<open>get_distance\<close> returns a value and raises nothing; and it returns null when the
  request gets no response (a transport error), when the status is an error status
  (4xx or 5xx, the ones \<open>raise_for_status\<close> rejects), when the body is not JSON, when the
  JSON object has no \<open>route_summary\<close>, and when its \<open>route_summary\<close> has no
  \<open>total_distance\<close>.
\<close>

theorem get_distance_never_raises:
  "(\<exists>v. fst (get_distance srv a b c d tok w) = Inr v)
   \<and> (srv (sent_count w) (route_request a b c d tok) = Transport_failure
        \<longrightarrow> fst (get_distance srv a b c d tok w) = Inr PNone)
   \<and> (\<forall>status bd. srv (sent_count w) (route_request a b c d tok) = Response status bd
          \<and> 400 \<le> status \<and> status < 600
        \<longrightarrow> fst (get_distance srv a b c d tok w) = Inr PNone)
   \<and> (\<forall>status. srv (sent_count w) (route_request a b c d tok) = Response status Malformed
        \<longrightarrow> fst (get_distance srv a b c d tok w) = Inr PNone)
   \<and> (\<forall>status items. srv (sent_count w) (route_request a b c d tok) = Response status (Json (PDict items))
          \<and> map_of items ''route_summary'' = None
        \<longrightarrow> fst (get_distance srv a b c d tok w) = Inr PNone)
   \<and> (\<forall>status items summary.
          srv (sent_count w) (route_request a b c d tok) = Response status (Json (PDict items))
          \<and> map_of items ''route_summary'' = Some (PDict summary)
          \<and> map_of summary ''total_distance'' = None
        \<longrightarrow> fst (get_distance srv a b c d tok w) = Inr PNone)"
proof -
  have "\<And>status bd. 400 \<le> status \<and> status < 600 \<Longrightarrow> distance_of (Response status bd) = PNone"
    subgoal for status bd by (cases bd) simp_all
    done
  then show ?thesis by (auto simp: get_distance_eq)
qed


text \<open>
  C6 at five endpoints, one for each of the five kinds of failure: each hypothesis holds
  at its endpoint and the value returned there is null.
\<close>

theorem get_distance_never_raises_witness:
  "fst (get_distance (\<lambda>n r. Transport_failure) (PNum 0) (PNum 0) (PNum 1) (PNum 1) ''t'' empty_world)
     = Inr PNone
   \<and> fst (get_distance (\<lambda>n r. Response 503 (Json (PDict [(''route_summary'', PDict [(''total_distance'', PNum 7)])])))
         (PNum 0) (PNum 0) (PNum 1) (PNum 1) ''t'' empty_world) = Inr PNone
   \<and> fst (get_distance (\<lambda>n r. Response 200 Malformed)
         (PNum 0) (PNum 0) (PNum 1) (PNum 1) ''t'' empty_world) = Inr PNone
   \<and> fst (get_distance (\<lambda>n r. Response 200 (Json (PDict [(''error'', PStr ''no route'')])))
         (PNum 0) (PNum 0) (PNum 1) (PNum 1) ''t'' empty_world) = Inr PNone
   \<and> fst (get_distance (\<lambda>n r. Response 200 (Json (PDict [(''route_summary'', PDict [(''total_time'', PNum 9)])])))
         (PNum 0) (PNum 0) (PNum 1) (PNum 1) ''t'' empty_world) = Inr PNone"
proof -
  note t = get_distance_never_raises[of _ "PNum 0" "PNum 0" "PNum 1" "PNum 1" "''t''" empty_world]
  have 1: "fst (get_distance (\<lambda>n r. Transport_failure) (PNum 0) (PNum 0) (PNum 1) (PNum 1) ''t'' empty_world)
     = Inr PNone"
    using t[of "\<lambda>n r. Transport_failure"] by simp
  have 2: "fst (get_distance (\<lambda>n r. Response 503 (Json (PDict [(''route_summary'', PDict [(''total_distance'', PNum 7)])])))
         (PNum 0) (PNum 0) (PNum 1) (PNum 1) ''t'' empty_world) = Inr PNone"
    using t[of "\<lambda>n r. Response 503 (Json (PDict [(''route_summary'', PDict [(''total_distance'', PNum 7)])]))"]
    by simp
  have 3: "fst (get_distance (\<lambda>n r. Response 200 Malformed)
         (PNum 0) (PNum 0) (PNum 1) (PNum 1) ''t'' empty_world) = Inr PNone"
    using t[of "\<lambda>n r. Response 200 Malformed"] by simp
  have 4: "fst (get_distance (\<lambda>n r. Response 200 (Json (PDict [(''error'', PStr ''no route'')])))
         (PNum 0) (PNum 0) (PNum 1) (PNum 1) ''t'' empty_world) = Inr PNone"
    using t[of "\<lambda>n r. Response 200 (Json (PDict [(''error'', PStr ''no route'')]))"] by simp
  have 5: "fst (get_distance (\<lambda>n r. Response 200 (Json (PDict [(''route_summary'', PDict [(''total_time'', PNum 9)])])))
         (PNum 0) (PNum 0) (PNum 1) (PNum 1) ''t'' empty_world) = Inr PNone"
    using t[of "\<lambda>n r. Response 200 (Json (PDict [(''route_summary'', PDict [(''total_time'', PNum 9)])]))"]
    by simp
  from 1 2 3 4 5 show ?thesis by blast
qed


section \<open>Properties of the six added columns\<close>

lemma index_of_append:
  "c \<in> set xs \<Longrightarrow> index_of (xs @ ys) c = index_of xs c"
  by (induction xs) auto

lemma wf_frame_rowD:
  "wf_frame df \<Longrightarrow> i < length (rows df) \<Longrightarrow> length (rows df ! i) = length (columns df)"
  by (simp add: wf_frame_def list_all_length)

lemma with_features_columns:
  "columns (with_features df fs) = columns df @ feature_columns"
  by (simp add: with_features_def feature_columns_def add_column_simps)

lemma with_features_rows:
  assumes "length (nearest_mrt fs) = length (rows df)"
     "length (mrt_distances fs) = length (rows df)"
     "length (nearest_mall fs) = length (rows df)"
     "length (mall_distances fs) = length (rows df)"
     "length (nearest_school fs) = length (rows df)"
     "length (within_1km fs) = length (rows df)"
  shows "length (rows (with_features df fs)) = length (rows df)"
    and "i < length (rows df) \<Longrightarrow> rows (with_features df fs) ! i =
           rows df ! i @ [nearest_mrt fs ! i, mrt_distances fs ! i, nearest_mall fs ! i,
                          mall_distances fs ! i, nearest_school fs ! i, within_1km fs ! i]"
  using assms by (simp_all add: with_features_def add_column_simps add_column_nth)

lemma getitem_with_features:
  assumes wf: "wf_frame df" and c: "c \<in> set (columns df)"
    and len: "length (nearest_mrt fs) = length (rows df)"
     "length (mrt_distances fs) = length (rows df)"
     "length (nearest_mall fs) = length (rows df)"
     "length (mall_distances fs) = length (rows df)"
     "length (nearest_school fs) = length (rows df)"
     "length (within_1km fs) = length (rows df)"
  shows "getitem (with_features df fs) c = getitem df c"
proof -
  from c obtain j where j: "index_of (columns df) c = Some j"
    by (cases "index_of (columns df) c") (auto simp: index_of_None)
  then have jlt: "j < length (columns df)" using index_of_Some by blast
  have idx: "index_of (columns (with_features df fs)) c = Some j"
    using j c by (simp add: with_features_columns index_of_append)
  have "map (\<lambda>r. r ! j) (rows (with_features df fs)) = map (\<lambda>r. r ! j) (rows df)"
  proof (rule nth_equalityI)
    show "length (map (\<lambda>r. r ! j) (rows (with_features df fs))) = length (map (\<lambda>r. r ! j) (rows df))"
      using with_features_rows(1)[OF len] by simp
  next
    fix i assume "i < length (map (\<lambda>r. r ! j) (rows (with_features df fs)))"
    then have i: "i < length (rows df)" using with_features_rows(1)[OF len] by simp
    have "length (rows df ! i) = length (columns df)" using wf i by (rule wf_frame_rowD)
    then show "map (\<lambda>r. r ! j) (rows (with_features df fs)) ! i = map (\<lambda>r. r ! j) (rows df) ! i"
      using i jlt with_features_rows[OF len] by (simp add: nth_append)
  qed
  then show ?thesis using j idx by (simp add: getitem_def)
qed


section \<open>The claims about engineer\_distance\_features\<close>

text \<open>The definitions that a concrete run of \<open>engineer_distance_features\<close> unfolds.\<close>

lemmas run_simps = engineer_distance_features_def seq_def getcol_def getitem_def
  subject_step_def get_distance_def get_distance_try_def requests_get_def
  nearest_simps taxi_def assign_features_def setcol_def setitem_def
  add_column_def replace_column_def no_features_def sent_count_def route_request_def
  raise_for_status_def response_json_def


text \<open>
  C10, as amended: for every well-formed input DataFrame that has none of the six
  labels among its columns, if the call returns (every per-subject lookup succeeded),
  then the value returned is the caller's object itself, no other object is touched and
  none is created; that object has the six new columns \<open>Nearest_MRT\<close>,
  \<open>Distance_MRT\<close>, \<open>Nearest_Mall\<close>, \<open>Distance_Mall\<close>, \<open>Nearest_Pri_Sch\<close>,
  \<open>Within_1km_of_Pri\<close> after the columns it had; it has the same number of rows, each
  row being the old row followed by six cells; and every column it had before holds the
  same values as before.
\<close>

theorem engineer_adds_columns_in_place:
  assumes wf: "wf_frame (heap w hdbs)"
    and fresh: "set feature_columns \<inter> set (columns (heap w hdbs)) = {}"
    and run: "engineer_distance_features hav srv hdbs mrts malls schools api_token w = (Inr result, w')"
  shows "result = hdbs
    \<and> columns (heap w' hdbs) = columns (heap w hdbs) @ feature_columns
    \<and> length (rows (heap w' hdbs)) = length (rows (heap w hdbs))
    \<and> (\<forall>i<length (rows (heap w hdbs)).
          take (length (columns (heap w hdbs))) (rows (heap w' hdbs) ! i) = rows (heap w hdbs) ! i
        \<and> length (rows (heap w' hdbs) ! i) = length (columns (heap w hdbs)) + 6)
    \<and> (\<forall>c\<in>set (columns (heap w hdbs)). getitem (heap w' hdbs) c = getitem (heap w hdbs) c)
    \<and> (\<forall>a. a \<noteq> hdbs \<longrightarrow> heap w' a = heap w a)
    \<and> next_ref w' = next_ref w"
proof -
  let ?df = "heap w hdbs"
  from engineer_fresh[OF run fresh] obtain fs reqs where x: "result = hdbs"
    and w': "w' = w\<lparr>trace := trace w @ reqs, heap := (heap w)(hdbs := with_features ?df fs)\<rparr>"
    and len: "length (nearest_mrt fs) = length (rows ?df)"
     "length (mrt_distances fs) = length (rows ?df)"
     "length (nearest_mall fs) = length (rows ?df)"
     "length (mall_distances fs) = length (rows ?df)"
     "length (nearest_school fs) = length (rows ?df)"
     "length (within_1km fs) = length (rows ?df)"
    by blast
  have h: "heap w' hdbs = with_features ?df fs" using w' by simp
  have a: "columns (heap w' hdbs) = columns ?df @ feature_columns"
    using h by (simp add: with_features_columns)
  have b: "length (rows (heap w' hdbs)) = length (rows ?df)"
    using h with_features_rows(1)[OF len] by simp
  have c: "\<forall>i<length (rows ?df).
          take (length (columns ?df)) (rows (heap w' hdbs) ! i) = rows ?df ! i
        \<and> length (rows (heap w' hdbs) ! i) = length (columns ?df) + 6"
  proof (intro allI impI)
    fix i assume i: "i < length (rows ?df)"
    have "length (rows ?df ! i) = length (columns ?df)" using wf i by (rule wf_frame_rowD)
    then show "take (length (columns ?df)) (rows (heap w' hdbs) ! i) = rows ?df ! i
        \<and> length (rows (heap w' hdbs) ! i) = length (columns ?df) + 6"
      using h i with_features_rows(2)[OF len] by simp
  qed
  have d: "\<forall>c\<in>set (columns ?df). getitem (heap w' hdbs) c = getitem ?df c"
    using h getitem_with_features[OF wf _ len] by simp
  have e: "\<forall>a. a \<noteq> hdbs \<longrightarrow> heap w' a = heap w a" using w' by simp
  have f: "next_ref w' = next_ref w" using w' by simp
  from x a b c d e f show ?thesis by blast
qed

text \<open>
  C10 for the table of one subject: the hypotheses hold, the call returns address 0, and
  the object at address 0 has the nine columns, the \<open>Address\<close> column as before.
\<close>

theorem engineer_adds_columns_in_place_witness:
  "wf_frame (heap (world_with one_hdb) 0)
   \<and> set feature_columns \<inter> set (columns (heap (world_with one_hdb) 0)) = {}
   \<and> fst (engineer_distance_features taxi unreachable 0 two_locs two_locs two_locs ''t''
            (world_with one_hdb)) = Inr 0
   \<and> heap (snd (engineer_distance_features taxi unreachable 0 two_locs two_locs two_locs ''t''
            (world_with one_hdb))) 0
       = \<lparr>columns = [''Address'', ''Lat'', ''Long'', ''Nearest_MRT'', ''Distance_MRT'',
            ''Nearest_Mall'', ''Distance_Mall'', ''Nearest_Pri_Sch'', ''Within_1km_of_Pri''],
           rows = [[PStr ''1 MAIN ST'', PNum 0, PNum 0,
                    PStr ''B'', PNone, PStr ''B'', PNone, PStr ''B'', PBool True]]\<rparr>
   \<and> getitem (heap (snd (engineer_distance_features taxi unreachable 0 two_locs two_locs
            two_locs ''t'' (world_with one_hdb))) 0) ''Address'' = getitem one_hdb ''Address''"
proof -
  let ?run = "engineer_distance_features taxi unreachable 0 two_locs two_locs two_locs ''t''
            (world_with one_hdb)"
  have wf: "wf_frame (heap (world_with one_hdb) 0)"
    by (simp add: world_with_def one_hdb_def wf_frame_def)
  have fresh: "set feature_columns \<inter> set (columns (heap (world_with one_hdb) 0)) = {}"
    by (simp add: world_with_def one_hdb_def feature_columns_def)
  have r1: "fst ?run = Inr 0"
    by (simp add: world_with_def one_hdb_def two_locs_def unreachable_def run_simps)
  have r2: "heap (snd ?run) 0
       = \<lparr>columns = [''Address'', ''Lat'', ''Long'', ''Nearest_MRT'', ''Distance_MRT'',
            ''Nearest_Mall'', ''Distance_Mall'', ''Nearest_Pri_Sch'', ''Within_1km_of_Pri''],
           rows = [[PStr ''1 MAIN ST'', PNum 0, PNum 0,
                    PStr ''B'', PNone, PStr ''B'', PNone, PStr ''B'', PBool True]]\<rparr>"
    by (simp add: world_with_def one_hdb_def two_locs_def unreachable_def run_simps)
  have run: "?run = (Inr 0, snd ?run)" using r1 by (simp add: prod_eq_iff)
  from engineer_adds_columns_in_place[OF wf fresh run]
  have "\<forall>c\<in>set (columns (heap (world_with one_hdb) 0)).
          getitem (heap (snd ?run) 0) c = getitem (heap (world_with one_hdb) 0) c"
    by blast
  then have "getitem (heap (snd ?run) 0) ''Address'' = getitem one_hdb ''Address''"
    by (simp add: world_with_def one_hdb_def)
  with wf fresh r1 r2 show ?thesis by blast
qed


text \<open>
  The claim C10 as first stated, for every input DataFrame, fails on a table that
  already has a column \<open>Nearest_MRT\<close>: the call succeeds, that column's value \<open>old\<close> is
  overwritten, and the table goes from three columns to eight, five more and not six.
\<close>

theorem engineer_overwrites_existing_column:
  "wf_frame relabelled_hdb
   \<and> fst (engineer_distance_features taxi unreachable 0 two_locs two_locs two_locs ''t''
            (world_with relabelled_hdb)) = Inr 0
   \<and> getitem relabelled_hdb ''Nearest_MRT'' = Inr [PStr ''old'']
   \<and> getitem (heap (snd (engineer_distance_features taxi unreachable 0 two_locs two_locs
            two_locs ''t'' (world_with relabelled_hdb))) 0) ''Nearest_MRT'' = Inr [PStr ''B'']
   \<and> length (columns relabelled_hdb) = 3
   \<and> length (columns (heap (snd (engineer_distance_features taxi unreachable 0 two_locs
            two_locs two_locs ''t'' (world_with relabelled_hdb))) 0)) = 8"
proof -
  let ?run = "engineer_distance_features taxi unreachable 0 two_locs two_locs two_locs ''t''
            (world_with relabelled_hdb)"
  have wf: "wf_frame relabelled_hdb" by (simp add: relabelled_hdb_def wf_frame_def)
  have r1: "fst ?run = Inr 0"
    by (simp add: world_with_def relabelled_hdb_def two_locs_def unreachable_def run_simps)
  have r2: "heap (snd ?run) 0
       = \<lparr>columns = [''Lat'', ''Long'', ''Nearest_MRT'', ''Distance_MRT'',
            ''Nearest_Mall'', ''Distance_Mall'', ''Nearest_Pri_Sch'', ''Within_1km_of_Pri''],
           rows = [[PNum 0, PNum 0,
                    PStr ''B'', PNone, PStr ''B'', PNone, PStr ''B'', PBool True]]\<rparr>"
    by (simp add: world_with_def relabelled_hdb_def two_locs_def unreachable_def run_simps)
  have a: "getitem relabelled_hdb ''Nearest_MRT'' = Inr [PStr ''old'']"
    by (simp add: relabelled_hdb_def getitem_def)
  have b: "getitem (heap (snd ?run) 0) ''Nearest_MRT'' = Inr [PStr ''B'']"
    by (simp add: r2 getitem_def)
  have c: "length (columns relabelled_hdb) = 3" by (simp add: relabelled_hdb_def)
  have d: "length (columns (heap (snd ?run) 0)) = 8" by (simp add: r2)
  from wf r1 a b c d show ?thesis by blast
qed

section \<open>The claim about the calls of the enrichment loop\<close>



section \<open>Properties of the batch loop\<close>

lemma wf_frame_slice:
  assumes "wf_frame df"
  shows "wf_frame \<lparr>columns = columns df, rows = slice s e (rows df)\<rparr>"
proof -
  have "set (slice s e (rows df)) \<subseteq> set (rows df)"
    unfolding slice_def by (meson set_take_subset set_drop_subset subset_trans)
  then show ?thesis using assms by (auto simp: wf_frame_def list_all_iff)
qed

lemma batch_pass_failure:
  assumes alloc: "hdbs < next_ref w"
    and eng: "engineer_distance_features hav srv (next_ref w) mrts malls schools tok
               (snd (iloc_copy hdbs (batch_start B i) (batch_end B (length (rows (heap w hdbs))) i) w))
             = (Inl err, w2)"
  shows "heap w2 hdbs = heap w hdbs \<and> out_file w2 = out_file w \<and> hdbs < next_ref w2
     \<and> (\<exists>tail. trace w2 = trace w @ tail \<and> list_all is_Sent tail
           \<and> length tail \<le> 2 * length (batch_rows B (heap w hdbs) i))"
proof -
  let ?df = "heap w hdbs"
  let ?a = "next_ref w"
  let ?batch = "\<lparr>columns = columns ?df, rows = batch_rows B ?df i\<rparr>"
  let ?w1 = "w\<lparr>heap := (heap w)(?a := ?batch), next_ref := Suc ?a\<rparr>"
  have w1: "snd (iloc_copy hdbs (batch_start B i) (batch_end B (length (rows ?df)) i) w) = ?w1"
    by (simp add: iloc_copy_def Let_def batch_rows_def)
  from eng w1 have e: "engineer_distance_features hav srv ?a mrts malls schools tok ?w1 = (Inl err, w2)"
    by simp
  from engineer_world[OF e] obtain reqs df' where
    w2: "w2 = ?w1\<lparr>trace := trace ?w1 @ reqs, heap := (heap ?w1)(?a := df')\<rparr>"
    and s: "list_all is_Sent reqs" and l: "length reqs \<le> 2 * length (rows (heap ?w1 ?a))"
    by blast
  have ne: "hdbs \<noteq> ?a" using alloc by simp
  have "heap w2 hdbs = ?df" using w2 ne by simp
  moreover have "out_file w2 = out_file w" using w2 by simp
  moreover have "hdbs < next_ref w2" using w2 alloc by simp
  moreover have "trace w2 = trace w @ reqs" using w2 by simp
  moreover have "length reqs \<le> 2 * length (batch_rows B ?df i)" using l by simp
  ultimately show ?thesis using s by blast
qed

lemma batch_pass_success:
  assumes alloc: "hdbs < next_ref w"
    and eng: "engineer_distance_features hav srv (next_ref w) mrts malls schools tok
               (snd (iloc_copy hdbs (batch_start B i) (batch_end B (length (rows (heap w hdbs))) i) w))
             = (Inr x, w2)"
  shows "\<exists>p. pass_ok B (heap w hdbs) i p
     \<and> heap (sleep 30 (to_csv_append x False w2)) hdbs = heap w hdbs
     \<and> hdbs < next_ref (sleep 30 (to_csv_append x False w2))
     \<and> out_file (sleep 30 (to_csv_append x False w2)) = out_file w @ pass_lines p
     \<and> trace (sleep 30 (to_csv_append x False w2)) = trace w @ pass_events p"
proof -
  let ?df = "heap w hdbs"
  let ?a = "next_ref w"
  let ?batch = "\<lparr>columns = columns ?df, rows = batch_rows B ?df i\<rparr>"
  let ?w1 = "w\<lparr>heap := (heap w)(?a := ?batch), next_ref := Suc ?a\<rparr>"
  let ?w3 = "sleep 30 (to_csv_append x False w2)"
  have w1: "snd (iloc_copy hdbs (batch_start B i) (batch_end B (length (rows ?df)) i) w) = ?w1"
    by (simp add: iloc_copy_def Let_def batch_rows_def)
  from eng w1 have e: "engineer_distance_features hav srv ?a mrts malls schools tok ?w1 = (Inr x, w2)"
    by simp
  from engineer_world[OF e] obtain reqs df' where
    w2: "w2 = ?w1\<lparr>trace := trace ?w1 @ reqs, heap := (heap ?w1)(?a := df')\<rparr>"
    and s: "list_all is_Sent reqs"
    and x: "x = ?a" and l: "length reqs = 2 * length (rows (heap ?w1 ?a))"
    and r: "length (rows df') = length (rows (heap ?w1 ?a))"
    by blast
  have ne: "hdbs \<noteq> ?a" using alloc by simp
  let ?p = "(reqs, rows df')"
  have rl: "length (rows df') = length (batch_rows B ?df i)" using r by simp
  have order: "map (take (length (columns ?df))) (rows df') = batch_rows B ?df i"
    if wf: "wf_frame ?df" and fresh: "set feature_columns \<inter> set (columns ?df) = {}"
  proof -
    have fresh1: "set feature_columns \<inter> set (columns (heap ?w1 ?a)) = {}" using fresh by simp
    from engineer_fresh[OF e fresh1] obtain fs reqs' where
      w2': "w2 = ?w1\<lparr>trace := trace ?w1 @ reqs', heap := (heap ?w1)(?a := with_features (heap ?w1 ?a) fs)\<rparr>"
      and len: "length (nearest_mrt fs) = length (rows (heap ?w1 ?a))"
       "length (mrt_distances fs) = length (rows (heap ?w1 ?a))"
       "length (nearest_mall fs) = length (rows (heap ?w1 ?a))"
       "length (mall_distances fs) = length (rows (heap ?w1 ?a))"
       "length (nearest_school fs) = length (rows (heap ?w1 ?a))"
       "length (within_1km fs) = length (rows (heap ?w1 ?a))"
      by blast
    have "heap w2 ?a = df'" using w2 by simp
    moreover have "heap w2 ?a = with_features (heap ?w1 ?a) fs" using w2' by simp
    ultimately have df': "df' = with_features ?batch fs" by simp
    have len': "length (nearest_mrt fs) = length (rows ?batch)"
       "length (mrt_distances fs) = length (rows ?batch)"
       "length (nearest_mall fs) = length (rows ?batch)"
       "length (mall_distances fs) = length (rows ?batch)"
       "length (nearest_school fs) = length (rows ?batch)"
       "length (within_1km fs) = length (rows ?batch)"
      using len by simp_all
    have wfb: "wf_frame ?batch" unfolding batch_rows_def using wf by (rule wf_frame_slice)
    show ?thesis
    proof (rule nth_equalityI)
      show "length (map (take (length (columns ?df))) (rows df')) = length (batch_rows B ?df i)"
        using rl by simp
    next
      fix k assume "k < length (map (take (length (columns ?df))) (rows df'))"
      then have k: "k < length (rows ?batch)" using rl by simp
      have "length (rows ?batch ! k) = length (columns ?batch)" using wfb k by (rule wf_frame_rowD)
      then have "take (length (columns ?df)) (rows (with_features ?batch fs) ! k) = rows ?batch ! k"
        using with_features_rows(2)[OF len' k] by simp
      then show "map (take (length (columns ?df))) (rows df') ! k = batch_rows B ?df i ! k"
        using k rl df' by simp
    qed
  qed
  have ok: "pass_ok B ?df i ?p"
    using s l rl order by (simp add: pass_ok_def)
  have h: "heap ?w3 hdbs = ?df"
    using w2 ne by (simp add: sleep_def to_csv_append_def Let_def)
  have n: "hdbs < next_ref ?w3"
    using w2 alloc by (simp add: sleep_def to_csv_append_def Let_def)
  have f: "out_file ?w3 = out_file w @ pass_lines ?p"
    using w2 x by (simp add: sleep_def to_csv_append_def Let_def pass_lines_def)
  have t: "trace ?w3 = trace w @ pass_events ?p"
    using w2 x by (simp add: sleep_def to_csv_append_def Let_def pass_events_def)
  from ok h n f t show ?thesis by blast
qed

lemma batch_loop_Cons:
  "batch_loop B hav srv hdbs mrts malls schools tok (i # todo) w =
     (case engineer_distance_features hav srv (next_ref w) mrts malls schools tok
             (snd (iloc_copy hdbs (batch_start B i) (batch_end B (length (rows (heap w hdbs))) i) w)) of
        (Inl e, w2) \<Rightarrow> (Inl e, w2)
      | (Inr x, w2) \<Rightarrow>
          batch_loop B hav srv hdbs mrts malls schools tok todo (sleep 30 (to_csv_append x False w2)))"
  by (simp add: Let_def iloc_copy_def)

lemma batch_loop_run:
  assumes "batch_loop B hav srv hdbs mrts malls schools tok todo w = (r, w')"
    and "hdbs < next_ref w"
  shows "\<exists>passes tail.
       heap w' hdbs = heap w hdbs
     \<and> out_file w' = out_file w @ concat (map pass_lines passes)
     \<and> trace w' = trace w @ concat (map pass_events passes) @ tail
     \<and> list_all2 (pass_ok B (heap w hdbs)) (take (length passes) todo) passes
     \<and> length passes \<le> length todo
     \<and> list_all is_Sent tail
     \<and> (\<forall>u. r = Inr u \<longrightarrow> length passes = length todo \<and> tail = [])
     \<and> (\<forall>e. r = Inl e \<longrightarrow> length passes < length todo
            \<and> length tail \<le> 2 * length (batch_rows B (heap w hdbs) (todo ! length passes)))"
  using assms
proof (induction todo arbitrary: w)
  case Nil
  then have "w' = w" "r = Inr ()" by auto
  then show ?case
    by (intro exI[of _ "[]"]) simp
next
  case (Cons i todo)
  let ?df = "heap w hdbs"
  let ?w1 = "snd (iloc_copy hdbs (batch_start B i) (batch_end B (length (rows (heap w hdbs))) i) w)"
  obtain r2 w2 where eng:
    "engineer_distance_features hav srv (next_ref w) mrts malls schools tok ?w1 = (r2, w2)"
    by (cases "engineer_distance_features hav srv (next_ref w) mrts malls schools tok ?w1") auto
  show ?case
  proof (cases r2)
    case (Inl err)
    with Cons.prems(1) eng have res: "r = Inl err" "w' = w2"
      by (auto simp: batch_loop_Cons simp del: batch_loop.simps)
    from batch_pass_failure[OF Cons.prems(2) eng[unfolded Inl]] obtain tail where
      "heap w2 hdbs = ?df" "out_file w2 = out_file w" "trace w2 = trace w @ tail"
      "list_all is_Sent tail" "length tail \<le> 2 * length (batch_rows B ?df i)"
      by blast
    with res show ?thesis
      by (intro exI[of _ "[]"] exI[of _ tail]) simp
  next
    case (Inr x)
    let ?w3 = "sleep 30 (to_csv_append x False w2)"
    from Cons.prems(1) eng Inr have rec:
      "batch_loop B hav srv hdbs mrts malls schools tok todo ?w3 = (r, w')"
      by (auto simp: batch_loop_Cons simp del: batch_loop.simps)
    from batch_pass_success[OF Cons.prems(2) eng[unfolded Inr]] obtain p where
      ok: "pass_ok B ?df i p" and h: "heap ?w3 hdbs = ?df" and n: "hdbs < next_ref ?w3"
      and f: "out_file ?w3 = out_file w @ pass_lines p"
      and t: "trace ?w3 = trace w @ pass_events p"
      by blast
    from Cons.IH[OF rec n] obtain passes tail where
      1: "heap w' hdbs = heap ?w3 hdbs"
      and 2: "out_file w' = out_file ?w3 @ concat (map pass_lines passes)"
      and 3: "trace w' = trace ?w3 @ concat (map pass_events passes) @ tail"
      and 4: "list_all2 (pass_ok B (heap ?w3 hdbs)) (take (length passes) todo) passes"
      and 5: "length passes \<le> length todo"
      and 6: "list_all is_Sent tail"
      and 7: "\<forall>u. r = Inr u \<longrightarrow> length passes = length todo \<and> tail = []"
      and 8: "\<forall>e. r = Inl e \<longrightarrow> length passes < length todo
            \<and> length tail \<le> 2 * length (batch_rows B (heap ?w3 hdbs) (todo ! length passes))"
      by blast
    have a: "heap w' hdbs = ?df" using 1 h by simp
    have b: "out_file w' = out_file w @ concat (map pass_lines (p # passes))" using 2 f by simp
    have c: "trace w' = trace w @ concat (map pass_events (p # passes)) @ tail" using 3 t by simp
    have d: "list_all2 (pass_ok B ?df) (take (length (p # passes)) (i # todo)) (p # passes)"
      using 4 h ok by simp
    have e: "length (p # passes) \<le> length (i # todo)" using 5 by simp
    have g: "\<forall>u. r = Inr u \<longrightarrow> length (p # passes) = length (i # todo) \<and> tail = []"
      using 7 by simp
    have k: "\<forall>e. r = Inl e \<longrightarrow> length (p # passes) < length (i # todo)
            \<and> length tail \<le> 2 * length (batch_rows B ?df ((i # todo) ! length (p # passes)))"
      using 8 h by simp
    from a b c d e 6 g k show ?thesis by blast
  qed
qed

section \<open>The partition into batches\<close>

lemma slice_batch:
  assumes "i * B \<le> length xs"
  shows "slice (batch_start B i) (batch_end B (length xs) i) xs = take B (drop (i * B) xs)"
proof (cases "i * B + B \<le> length xs")
  case True
  then show ?thesis by (simp add: slice_def batch_start_def batch_end_def)
next
  case False
  then have "min (i * B + B) (length xs) - i * B = length (drop (i * B) xs)"
    using assms by simp
  moreover have "length (drop (i * B) xs) \<le> B" using False by simp
  ultimately show ?thesis by (simp add: slice_def batch_start_def batch_end_def)
qed

lemma batch_count_bounds:
  assumes "1 \<le> B"
  shows "N \<le> batch_count B N * B" and "0 < N \<Longrightarrow> (batch_count B N - 1) * B < N"
    and "N = 0 \<Longrightarrow> batch_count B N = 0"
proof -
  have B: "0 < B" using assms by simp
  let ?M = "N + B - 1"
  have mod: "?M mod B < B" using B by simp
  have eq: "?M = ?M div B * B + ?M mod B" by simp
  have "?M mod B \<le> B - 1" using mod by simp
  then have "?M - (B - 1) \<le> ?M div B * B" using eq by linarith
  then show "N \<le> batch_count B N * B" using B by (simp add: batch_count_def)
  show "(batch_count B N - 1) * B < N" if "0 < N"
  proof -
    have "(?M div B - 1) * B = ?M div B * B - B" by (simp add: diff_mult_distrib)
    moreover have "?M div B * B \<le> N + B - 1" by simp
    ultimately have "(?M div B - 1) * B \<le> N - 1" using B by linarith
    then show ?thesis using that by (simp add: batch_count_def)
  qed
  show "batch_count B N = 0" if "N = 0" using that B by (simp add: batch_count_def)
qed

lemma batch_count_ceiling:
  assumes "1 \<le> B"
  shows "batch_count B N = nat \<lceil>real N / real B\<rceil>"
proof -
  have B: "0 < B" using assms by simp
  have up: "real N \<le> real (batch_count B N) * real B"
    using batch_count_bounds(1)[OF assms, of N] by (metis of_nat_le_iff of_nat_mult)
  have "\<lceil>real N / real B\<rceil> = int (batch_count B N)"
  proof (rule ceiling_unique)
    show "real N / real B \<le> of_int (int (batch_count B N))"
      using up B by (simp add: divide_le_eq)
    show "of_int (int (batch_count B N)) - 1 < real N / real B"
    proof (cases "N = 0")
      case True
      then show ?thesis using batch_count_bounds(3)[OF assms] by simp
    next
      case False
      then have "(batch_count B N - 1) * B < N" using batch_count_bounds(2)[OF assms] by simp
      then have "real ((batch_count B N - 1) * B) < real N" by (simp only: of_nat_less_iff)
      moreover have "1 \<le> batch_count B N"
        using batch_count_bounds(1)[OF assms, of N] False by (cases "batch_count B N") auto
      ultimately have "(real (batch_count B N) - 1) * real B < real N"
        by (simp add: of_nat_diff)
      then show ?thesis using B by (simp add: less_divide_eq)
    qed
  qed
  then show ?thesis by simp
qed

lemma concat_takes:
  "concat (map (\<lambda>i. take B (drop (i * B) xs)) [0..<n]) = take (n * B) xs"
proof (induction n)
  case 0
  then show ?case by simp
next
  case (Suc n)
  have "take (n * B + B) xs = take (n * B) xs @ take B (drop (n * B) xs)"
    by (simp add: take_add)
  with Suc show ?case by (simp add: add.commute)
qed

lemma batches_nth:
  assumes "1 \<le> B" and "i < batch_count B (length xs)"
  shows "batches B xs ! i = take B (drop (i * B) xs)"
    and "batches B xs ! i = slice (batch_start B i) (batch_end B (length xs) i) xs"
    and "i * B < length xs"
proof -
  let ?N = "length xs"
  have pos: "0 < ?N" using assms batch_count_bounds(3)[OF assms(1), of ?N] by (cases "?N = 0") auto
  have "i \<le> batch_count B ?N - 1" using assms(2) by simp
  then have "i * B \<le> (batch_count B ?N - 1) * B" by (rule mult_le_mono1)
  then show lt: "i * B < ?N"
    using batch_count_bounds(2)[OF assms(1) pos] by (rule le_less_trans)
  show 2: "batches B xs ! i = slice (batch_start B i) (batch_end B ?N i) xs"
    using assms(2) by (simp add: batches_def)
  show "batches B xs ! i = take B (drop (i * B) xs)"
    using 2 slice_batch[of i B xs] lt by simp
qed

lemma batches_eq:
  assumes "1 \<le> B"
  shows "batches B xs = map (\<lambda>i. take B (drop (i * B) xs)) [0..<batch_count B (length xs)]"
proof (rule nth_equalityI)
  show "length (batches B xs) = length (map (\<lambda>i. take B (drop (i * B) xs)) [0..<batch_count B (length xs)])"
    by (simp add: batches_def)
next
  fix i assume "i < length (batches B xs)"
  then have i: "i < batch_count B (length xs)" by (simp add: batches_def)
  then show "batches B xs ! i = map (\<lambda>i. take B (drop (i * B) xs)) [0..<batch_count B (length xs)] ! i"
    using batches_nth(1)[OF assms i] by simp
qed

lemma concat_batches:
  assumes "1 \<le> B"
  shows "concat (batches B xs) = xs"
  using batch_count_bounds(1)[OF assms, of "length xs"]
  by (simp add: batches_eq[OF assms] concat_takes)

lemma length_batches: "length (batches B xs) = batch_count B (length xs)"
  by (simp add: batches_def)

lemma batches_sizes:
  assumes "1 \<le> B" and "i < batch_count B (length xs)"
  shows "1 \<le> length (batches B xs ! i)" and "length (batches B xs ! i) \<le> B"
    and "Suc i < batch_count B (length xs) \<Longrightarrow> length (batches B xs ! i) = B"
proof -
  have lt: "i * B < length xs" using batches_nth(3)[OF assms] .
  have eq: "batches B xs ! i = take B (drop (i * B) xs)" using batches_nth(1)[OF assms] .
  show "1 \<le> length (batches B xs ! i)" using lt assms(1) by (simp add: eq)
  show "length (batches B xs ! i) \<le> B" by (simp add: eq)
  show "length (batches B xs ! i) = B" if "Suc i < batch_count B (length xs)"
  proof -
    have "Suc i * B < length xs" using batches_nth(3)[OF assms(1) that] .
    then show ?thesis by (simp add: eq)
  qed
qed

section \<open>Properties of a run of the batch loop\<close>

lemma appended_sizes_append:
  "appended_sizes (xs @ ys) = appended_sizes xs @ appended_sizes ys"
  by (induction xs rule: appended_sizes.induct) auto

lemma appended_sizes_Sent: "list_all is_Sent reqs \<Longrightarrow> appended_sizes reqs = []"
  by (induction reqs rule: appended_sizes.induct) auto

lemma appended_sizes_pass:
  "list_all is_Sent (fst p) \<Longrightarrow> appended_sizes (pass_events p) = [length (snd p)]"
  by (simp add: pass_events_def appended_sizes_append appended_sizes_Sent)

lemma appended_sizes_passes:
  "list_all (\<lambda>p. list_all is_Sent (fst p)) passes \<Longrightarrow>
     appended_sizes (concat (map pass_events passes)) = map (\<lambda>p. length (snd p)) passes"
  by (induction passes) (auto simp: appended_sizes_append appended_sizes_pass)

lemma requests_between_pauses_Sent:
  "list_all is_Sent reqs \<Longrightarrow>
     requests_between_pauses n (reqs @ tr) = requests_between_pauses (n + length reqs) tr"
  by (induction n reqs rule: requests_between_pauses.induct) auto

lemma requests_between_pauses_pass:
  "list_all is_Sent (fst p) \<Longrightarrow>
     requests_between_pauses n (pass_events p @ tr) =
       (n + length (fst p)) # requests_between_pauses 0 tr"
  by (simp add: pass_events_def requests_between_pauses_Sent)

lemma requests_between_pauses_passes:
  assumes "list_all (\<lambda>p. list_all is_Sent (fst p)) passes" and "list_all is_Sent tail"
  shows "requests_between_pauses 0 (concat (map pass_events passes) @ tail) =
           map (\<lambda>p. length (fst p)) passes @ [length tail]"
  using assms(1)
proof (induction passes)
  case Nil
  show ?case using requests_between_pauses_Sent[OF assms(2), of 0 "[]"] by simp
next
  case (Cons p passes)
  then show ?case by (simp add: requests_between_pauses_pass)
qed

lemma set_slice: "set (slice s e xs) \<subseteq> set xs"
  unfolding slice_def by (meson set_take_subset set_drop_subset subset_trans)

lemma has_coords_slice:
  assumes "has_coords df"
  shows "has_coords \<lparr>columns = columns df, rows = slice s e (rows df)\<rparr>"
proof -
  from assms obtain lats longs where g: "getitem df ''Lat'' = Inr lats" "getitem df ''Long'' = Inr longs"
    and n: "list_all (cell_passes 90) lats" "list_all (cell_passes 180) longs"
    by (auto simp: has_coords_def split: sum.splits)
  from g obtain i j where i: "index_of (columns df) ''Lat'' = Some i"
    and j: "index_of (columns df) ''Long'' = Some j"
    and lats: "lats = map (\<lambda>r. r ! i) (rows df)" and longs: "longs = map (\<lambda>r. r ! j) (rows df)"
    by (auto simp: getitem_def split: option.splits)
  have "list_all (cell_passes 90) (map (\<lambda>r. r ! i) (slice s e (rows df)))"
    using n(1) set_slice[of s e "rows df"] by (auto simp: lats list_all_iff)
  moreover have "list_all (cell_passes 180) (map (\<lambda>r. r ! j) (slice s e (rows df)))"
    using n(2) set_slice[of s e "rows df"] by (auto simp: longs list_all_iff)
  ultimately show ?thesis using i j by (simp add: has_coords_def getitem_def)
qed

lemma batch_loop_ok:
  assumes "has_coords (heap w hdbs)" and m: "usable mrts" "usable malls" "usable schools"
    and "hdbs < next_ref w"
  shows "\<exists>w'. batch_loop B hav srv hdbs mrts malls schools tok todo w = (Inr (), w')"
  using assms(1,5)
proof (induction todo arbitrary: w)
  case Nil
  then show ?case by simp
next
  case (Cons i todo)
  let ?df = "heap w hdbs"
  let ?w1 = "snd (iloc_copy hdbs (batch_start B i) (batch_end B (length (rows ?df)) i) w)"
  have "heap ?w1 (next_ref w) =
          \<lparr>columns = columns ?df,
           rows = slice (batch_start B i) (batch_end B (length (rows ?df)) i) (rows ?df)\<rparr>"
    by (simp add: iloc_copy_def Let_def)
  then have "has_coords (heap ?w1 (next_ref w))"
    using has_coords_slice[OF Cons.prems(1)] by simp
  from engineer_ok[OF this m, of hav srv tok] obtain w2 where eng:
    "engineer_distance_features hav srv (next_ref w) mrts malls schools tok ?w1 = (Inr (next_ref w), w2)"
    by blast
  let ?w3 = "sleep 30 (to_csv_append (next_ref w) False w2)"
  from batch_pass_success[OF Cons.prems(2) eng] have
    h: "heap ?w3 hdbs = ?df" and n: "hdbs < next_ref ?w3" by blast+
  from Cons.IH[of ?w3] h n Cons.prems(1) obtain w' where
    "batch_loop B hav srv hdbs mrts malls schools tok todo ?w3 = (Inr (), w')" by auto
  then show ?case using eng by (simp add: batch_loop_Cons del: batch_loop.simps)
qed

lemma batch_rows_batches:
  "i < batch_count B (length (rows df)) \<Longrightarrow> batch_rows B df i = batches B (rows df) ! i"
  by (simp add: batch_rows_def batches_def)

lemma run_batches_run:
  assumes B: "1 \<le> B" and alloc: "hdbs < next_ref w"
    and run: "run_batches B hav srv hdbs mrts malls schools tok w = (r, w')"
  shows "\<exists>passes tail.
       heap w' hdbs = heap w hdbs
     \<and> out_file w' = out_file w @ concat (map pass_lines passes)
     \<and> trace w' = trace w @ concat (map pass_events passes) @ tail
     \<and> length passes \<le> batch_count B (length (rows (heap w hdbs)))
     \<and> (\<forall>j<length passes. pass_ok B (heap w hdbs) j (passes ! j))
     \<and> list_all is_Sent tail
     \<and> (\<forall>u. r = Inr u \<longrightarrow> length passes = batch_count B (length (rows (heap w hdbs))) \<and> tail = [])
     \<and> (\<forall>e. r = Inl e \<longrightarrow> length passes < batch_count B (length (rows (heap w hdbs)))
            \<and> length tail \<le> 2 * length (batch_rows B (heap w hdbs) (length passes)))"
proof -
  let ?df = "heap w hdbs"
  let ?n = "batch_count B (length (rows ?df))"
  from run B have loop: "batch_loop B hav srv hdbs mrts malls schools tok [0..<?n] w = (r, w')"
    by (simp add: run_batches_def Let_def)
  from batch_loop_run[OF loop alloc] obtain passes tail where
    1: "heap w' hdbs = ?df"
    and 2: "out_file w' = out_file w @ concat (map pass_lines passes)"
    and 3: "trace w' = trace w @ concat (map pass_events passes) @ tail"
    and 4: "list_all2 (pass_ok B ?df) (take (length passes) [0..<?n]) passes"
    and 5: "length passes \<le> length [0..<?n]"
    and 6: "list_all is_Sent tail"
    and 7: "\<forall>u. r = Inr u \<longrightarrow> length passes = length [0..<?n] \<and> tail = []"
    and 8: "\<forall>e. r = Inl e \<longrightarrow> length passes < length [0..<?n]
            \<and> length tail \<le> 2 * length (batch_rows B ?df ([0..<?n] ! length passes))"
    by blast
  have c5: "length passes \<le> ?n" using 5 by simp
  have c4: "\<forall>j<length passes. pass_ok B ?df j (passes ! j)"
  proof (intro allI impI)
    fix j assume j: "j < length passes"
    have len: "length (take (length passes) [0..<?n]) = length passes" using c5 by simp
    have "pass_ok B ?df (take (length passes) [0..<?n] ! j) (passes ! j)"
      using list_all2_nthD2[OF 4 j] .
    moreover have "take (length passes) [0..<?n] ! j = j" using j c5 by simp
    ultimately show "pass_ok B ?df j (passes ! j)" by simp
  qed
  have c7: "\<forall>u. r = Inr u \<longrightarrow> length passes = ?n \<and> tail = []" using 7 by simp
  have c8: "\<forall>e. r = Inl e \<longrightarrow> length passes < ?n
            \<and> length tail \<le> 2 * length (batch_rows B ?df (length passes))"
    using 8 by auto
  from 1 2 3 c5 c4 6 c7 c8 show ?thesis by blast
qed

lemma batch_rows_le:
  assumes "1 \<le> B" and "j < batch_count B (length (rows df))"
  shows "length (batch_rows B df j) \<le> B"
  using batches_sizes(2)[OF assms] batch_rows_batches[OF assms(2)] by simp

lemma run_batches_requests:
  assumes B: "1 \<le> B" and alloc: "hdbs < next_ref w"
    and run: "run_batches B hav srv hdbs mrts malls schools tok w = (r, w')"
  shows "\<exists>new. trace w' = trace w @ new
      \<and> list_all (\<lambda>n. n \<le> 2 * B) (requests_between_pauses 0 new)
      \<and> (\<forall>u. r = Inr u \<longrightarrow> requests_between_pauses 0 new =
             map (\<lambda>b. 2 * length b) (batches B (rows (heap w hdbs))) @ [0])"
proof -
  let ?df = "heap w hdbs"
  let ?n = "batch_count B (length (rows ?df))"
  from run_batches_run[OF assms] obtain passes tail where
    3: "trace w' = trace w @ concat (map pass_events passes) @ tail"
    and 5: "length passes \<le> ?n"
    and 4: "\<forall>j<length passes. pass_ok B ?df j (passes ! j)"
    and 6: "list_all is_Sent tail"
    and 7: "\<forall>u. r = Inr u \<longrightarrow> length passes = ?n \<and> tail = []"
    and 8: "\<forall>e. r = Inl e \<longrightarrow> length passes < ?n
            \<and> length tail \<le> 2 * length (batch_rows B ?df (length passes))"
    by blast
  let ?new = "concat (map pass_events passes) @ tail"
  have sent: "list_all (\<lambda>p. list_all is_Sent (fst p)) passes"
    using 4 by (auto simp: list_all_length pass_ok_def)
  have counts: "requests_between_pauses 0 ?new = map (\<lambda>p. length (fst p)) passes @ [length tail]"
    by (rule requests_between_pauses_passes[OF sent 6])
  have each: "map (\<lambda>p. length (fst p)) passes
                = map (\<lambda>j. 2 * length (batches B (rows ?df) ! j)) [0..<length passes]"
  proof (rule nth_equalityI)
    show "length (map (\<lambda>p. length (fst p)) passes)
            = length (map (\<lambda>j. 2 * length (batches B (rows ?df) ! j)) [0..<length passes])"
      by simp
  next
    fix j assume "j < length (map (\<lambda>p. length (fst p)) passes)"
    then have j: "j < length passes" by simp
    then have "j < ?n" using 5 by simp
    then have "batch_rows B ?df j = batches B (rows ?df) ! j" by (rule batch_rows_batches)
    moreover have "length (fst (passes ! j)) = 2 * length (batch_rows B ?df j)"
      using 4 j by (simp add: pass_ok_def)
    ultimately show "map (\<lambda>p. length (fst p)) passes ! j
        = map (\<lambda>j. 2 * length (batches B (rows ?df) ! j)) [0..<length passes] ! j"
      using j by simp
  qed
  have bound1: "list_all (\<lambda>n. n \<le> 2 * B) (map (\<lambda>p. length (fst p)) passes)"
  proof -
    have "\<forall>j<length passes. 2 * length (batches B (rows ?df) ! j) \<le> 2 * B"
    proof (intro allI impI)
      fix j assume "j < length passes"
      then have "j < ?n" using 5 by simp
      from batches_sizes(2)[OF B this] show "2 * length (batches B (rows ?df) ! j) \<le> 2 * B"
        by simp
    qed
    then show ?thesis unfolding each by (simp add: list_all_length)
  qed
  have bound2: "length tail \<le> 2 * B"
  proof (cases r)
    case (Inl e)
    with 8 have lt: "length passes < ?n"
      and l: "length tail \<le> 2 * length (batch_rows B ?df (length passes))" by simp_all
    from batch_rows_le[OF B lt] l show ?thesis by simp
  next
    case (Inr u)
    with 7 show ?thesis by simp
  qed
  have a: "list_all (\<lambda>n. n \<le> 2 * B) (requests_between_pauses 0 ?new)"
    using bound1 bound2 by (simp add: counts)
  have b: "\<forall>u. r = Inr u \<longrightarrow> requests_between_pauses 0 ?new =
             map (\<lambda>b. 2 * length b) (batches B (rows ?df)) @ [0]"
  proof (intro allI impI)
    fix u assume "r = Inr u"
    with 7 have n: "length passes = ?n" and t: "tail = []" by simp_all
    have "map (\<lambda>j. 2 * length (batches B (rows ?df) ! j)) [0..<?n]
            = map (\<lambda>b. 2 * length b) (batches B (rows ?df))"
      by (rule nth_equalityI) (simp_all add: length_batches)
    then show "requests_between_pauses 0 ?new =
             map (\<lambda>b. 2 * length b) (batches B (rows ?df)) @ [0]"
      using counts each n t by simp
  qed
  from 3 a b show ?thesis by blast
qed

lemma run_batches_ok:
  assumes "1 \<le> B" "has_coords (heap w hdbs)" "usable mrts" "usable malls" "usable schools"
    "hdbs < next_ref w"
  shows "\<exists>w'. run_batches B hav srv hdbs mrts malls schools tok w = (Inr (), w')"
  using batch_loop_ok[OF assms(2-6)] assms(1) by (simp add: run_batches_def Let_def)

lemma run_batches_file:
  assumes B: "1 \<le> B" and alloc: "hdbs < next_ref w"
    and run: "run_batches B hav srv hdbs mrts malls schools tok w = (Inr u, w')"
  shows "\<exists>new events. out_file w' = out_file w @ new \<and> trace w' = trace w @ events
     \<and> list_all (\<lambda>l. \<not> is_Header l) new
     \<and> length new = length (rows (heap w hdbs))
     \<and> appended_sizes events = map length (batches B (rows (heap w hdbs)))
     \<and> (wf_frame (heap w hdbs) \<and> set feature_columns \<inter> set (columns (heap w hdbs)) = {}
          \<longrightarrow> map (\<lambda>l. take (length (columns (heap w hdbs))) (cells l)) new = rows (heap w hdbs))"
proof -
  let ?df = "heap w hdbs"
  let ?n = "batch_count B (length (rows ?df))"
  from run_batches_run[OF assms] obtain passes tail where
    2: "out_file w' = out_file w @ concat (map pass_lines passes)"
    and 3: "trace w' = trace w @ concat (map pass_events passes) @ tail"
    and 4: "\<forall>j<length passes. pass_ok B ?df j (passes ! j)"
    and 7: "length passes = ?n" "tail = []"
    by blast
  let ?new = "concat (map pass_lines passes)"
  let ?events = "concat (map pass_events passes)"
  have rows_j: "batch_rows B ?df j = batches B (rows ?df) ! j" if "j < length passes" for j
    using that 7(1) by (simp add: batch_rows_batches)
  have sent: "list_all (\<lambda>p. list_all is_Sent (fst p)) passes"
    using 4 by (auto simp: list_all_length pass_ok_def)
  have sizes: "map (\<lambda>p. length (snd p)) passes = map length (batches B (rows ?df))"
  proof (rule nth_equalityI)
    show "length (map (\<lambda>p. length (snd p)) passes) = length (map length (batches B (rows ?df)))"
      using 7(1) by (simp add: length_batches)
  next
    fix j assume "j < length (map (\<lambda>p. length (snd p)) passes)"
    then have j: "j < length passes" by simp
    then have "length (snd (passes ! j)) = length (batch_rows B ?df j)"
      using 4 by (simp add: pass_ok_def)
    then show "map (\<lambda>p. length (snd p)) passes ! j = map length (batches B (rows ?df)) ! j"
      using j rows_j[OF j] 7(1) by (simp add: length_batches)
  qed
  have a: "list_all (\<lambda>l. \<not> is_Header l) ?new"
    by (auto simp: list_all_iff pass_lines_def)
  have "length ?new = sum_list (map (\<lambda>p. length (snd p)) passes)"
    by (simp add: length_concat pass_lines_def comp_def)
  also have "\<dots> = sum_list (map length (batches B (rows ?df)))" by (simp only: sizes)
  also have "\<dots> = length (concat (batches B (rows ?df)))" by (simp add: length_concat)
  also have "\<dots> = length (rows ?df)" by (simp add: concat_batches[OF B])
  finally have b: "length ?new = length (rows ?df)" .
  have c: "appended_sizes ?events = map length (batches B (rows ?df))"
    using appended_sizes_passes[OF sent] sizes by simp
  have d: "map (\<lambda>l. take (length (columns ?df)) (cells l)) ?new = rows ?df"
    if wf: "wf_frame ?df" and fresh: "set feature_columns \<inter> set (columns ?df) = {}"
  proof -
    have each: "map (\<lambda>p. map (take (length (columns ?df))) (snd p)) passes = batches B (rows ?df)"
    proof (rule nth_equalityI)
      show "length (map (\<lambda>p. map (take (length (columns ?df))) (snd p)) passes)
              = length (batches B (rows ?df))"
        using 7(1) by (simp add: length_batches)
    next
      fix j assume "j < length (map (\<lambda>p. map (take (length (columns ?df))) (snd p)) passes)"
      then have j: "j < length passes" by simp
      then have "map (take (length (columns ?df))) (snd (passes ! j)) = batch_rows B ?df j"
        using 4 wf fresh by (simp add: pass_ok_def)
      then show "map (\<lambda>p. map (take (length (columns ?df))) (snd p)) passes ! j
                   = batches B (rows ?df) ! j"
        using j rows_j[OF j] by simp
    qed
    have "map (\<lambda>l. take (length (columns ?df)) (cells l)) ?new
            = concat (map (\<lambda>p. map (take (length (columns ?df))) (snd p)) passes)"
      by (simp add: map_concat pass_lines_def comp_def)
    also have "\<dots> = concat (batches B (rows ?df))" by (simp only: each)
    also have "\<dots> = rows ?df" by (rule concat_batches[OF B])
    finally show ?thesis .
  qed
  have e: "trace w' = trace w @ ?events" using 3 7(2) by simp
  from 2 e a b c d show ?thesis by blast
qed

lemma has_coords_subjects: "has_coords (subjects n)"
  by (simp add: has_coords_def getitem_def subjects_def list_all_iff cell_passes_def within_bound_def)

lemma batches_250: "length xs = 250 \<Longrightarrow> map length (batches 100 xs) = [100, 100, 50]"
  by (simp add: batches_def batch_count_def batch_start_def batch_end_def slice_def upt_rec)

lemma batches_100: "length xs = 100 \<Longrightarrow> map length (batches 100 xs) = [100]"
  by (simp add: batches_def batch_count_def batch_start_def batch_end_def slice_def upt_rec)

lemma run_batches_progress:
  assumes B: "1 \<le> B" and alloc: "hdbs < next_ref w"
    and run: "run_batches B hav srv hdbs mrts malls schools tok w = (r, w')"
  shows "\<exists>n new events. out_file w' = out_file w @ new \<and> trace w' = trace w @ events
     \<and> n \<le> length (batches B (rows (heap w hdbs)))
     \<and> (\<forall>u. r = Inr u \<longrightarrow> n = length (batches B (rows (heap w hdbs))))
     \<and> appended_sizes events = map length (take n (batches B (rows (heap w hdbs))))
     \<and> length new = length (concat (take n (batches B (rows (heap w hdbs)))))
     \<and> (wf_frame (heap w hdbs) \<and> set feature_columns \<inter> set (columns (heap w hdbs)) = {}
          \<longrightarrow> map (\<lambda>l. take (length (columns (heap w hdbs))) (cells l)) new
                = concat (take n (batches B (rows (heap w hdbs)))))"
proof -
  let ?df = "heap w hdbs"
  let ?bs = "batches B (rows ?df)"
  from run_batches_run[OF assms] obtain passes tail where
    2: "out_file w' = out_file w @ concat (map pass_lines passes)"
    and 3: "trace w' = trace w @ concat (map pass_events passes) @ tail"
    and 5: "length passes \<le> batch_count B (length (rows ?df))"
    and 4: "\<forall>j<length passes. pass_ok B ?df j (passes ! j)"
    and 6: "list_all is_Sent tail"
    and 7: "\<forall>u. r = Inr u \<longrightarrow> length passes = batch_count B (length (rows ?df)) \<and> tail = []"
    by blast
  let ?n = "length passes"
  let ?new = "concat (map pass_lines passes)"
  let ?events = "concat (map pass_events passes) @ tail"
  have n: "?n \<le> length ?bs" using 5 by (simp add: length_batches)
  have rows_j: "batch_rows B ?df j = ?bs ! j" if "j < ?n" for j
    using that 5 by (simp add: batch_rows_batches)
  have sent: "list_all (\<lambda>p. list_all is_Sent (fst p)) passes"
    using 4 by (auto simp: list_all_length pass_ok_def)
  have sizes: "map (\<lambda>p. length (snd p)) passes = map length (take ?n ?bs)"
  proof (rule nth_equalityI)
    show "length (map (\<lambda>p. length (snd p)) passes) = length (map length (take ?n ?bs))"
      using n by simp
  next
    fix j assume "j < length (map (\<lambda>p. length (snd p)) passes)"
    then have j: "j < ?n" by simp
    then have "length (snd (passes ! j)) = length (batch_rows B ?df j)"
      using 4 by (simp add: pass_ok_def)
    then show "map (\<lambda>p. length (snd p)) passes ! j = map length (take ?n ?bs) ! j"
      using j n rows_j[OF j] by simp
  qed
  have a: "appended_sizes ?events = map length (take ?n ?bs)"
    using appended_sizes_passes[OF sent] sizes
    by (simp add: appended_sizes_append appended_sizes_Sent[OF 6])
  have "length ?new = sum_list (map (\<lambda>p. length (snd p)) passes)"
    by (simp add: length_concat pass_lines_def comp_def)
  also have "\<dots> = sum_list (map length (take ?n ?bs))" by (simp only: sizes)
  also have "\<dots> = length (concat (take ?n ?bs))" by (simp add: length_concat)
  finally have b: "length ?new = length (concat (take ?n ?bs))" .
  have d: "map (\<lambda>l. take (length (columns ?df)) (cells l)) ?new = concat (take ?n ?bs)"
    if wf: "wf_frame ?df" and fresh: "set feature_columns \<inter> set (columns ?df) = {}"
  proof -
    have each: "map (\<lambda>p. map (take (length (columns ?df))) (snd p)) passes = take ?n ?bs"
    proof (rule nth_equalityI)
      show "length (map (\<lambda>p. map (take (length (columns ?df))) (snd p)) passes)
              = length (take ?n ?bs)"
        using n by simp
    next
      fix j assume "j < length (map (\<lambda>p. map (take (length (columns ?df))) (snd p)) passes)"
      then have j: "j < ?n" by simp
      then have "map (take (length (columns ?df))) (snd (passes ! j)) = batch_rows B ?df j"
        using 4 wf fresh by (simp add: pass_ok_def)
      then show "map (\<lambda>p. map (take (length (columns ?df))) (snd p)) passes ! j
                   = take ?n ?bs ! j"
        using j rows_j[OF j] by simp
    qed
    have "map (\<lambda>l. take (length (columns ?df)) (cells l)) ?new
            = concat (map (\<lambda>p. map (take (length (columns ?df))) (snd p)) passes)"
      by (simp add: map_concat pass_lines_def comp_def)
    also have "\<dots> = concat (take ?n ?bs)" by (simp only: each)
    finally show ?thesis .
  qed
  have c: "\<forall>u. r = Inr u \<longrightarrow> ?n = length ?bs" using 7 by (simp add: length_batches)
  have e: "trace w' = trace w @ ?events" using 3 by simp
  from 2 e n c a b d show ?thesis by blast
qed

lemma batches_5: "length xs = 5 \<Longrightarrow> map length (batches 2 xs) = [2, 2, 1]"
  by (simp add: batches_def batch_count_def batch_start_def batch_end_def slice_def upt_rec)

section \<open>The claims about the batch loop\<close>

lemma subjects_world_facts:
  "heap (world_with (subjects n)) 0 = subjects n"
  "0 < next_ref (world_with (subjects n))"
  "out_file (world_with (subjects n)) = []"
  "trace (world_with (subjects n)) = []"
  "length (rows (subjects n)) = n"
  "wf_frame (subjects n)"
  "set feature_columns \<inter> set (columns (subjects n)) = {}"
  by (auto simp: world_with_def subjects_def wf_frame_def feature_columns_def list_all_iff)

text \<open>
  C4, as amended: the run writes no header row.  Every batch, the first included, is
  appended without a header: in a run that completes, the lines added to the output file
  are data rows only, one per subject, so the file has a header after the run only if it
  had one before.  The appends follow the batches, one append per batch with the size of
  the batch, in order; and when the table of subjects is well formed and has none of
  the six labels, the appended rows begin with the subjects' own cells, in input order.
  For 250 subjects and batch size 100, the appends have sizes 100, 100, 50.
\<close>

theorem output_is_headerless:
  assumes "1 \<le> B" and "hdbs < next_ref w"
    and "run_batches B hav srv hdbs mrts malls schools api_token w = (Inr u, w')"
  shows "\<exists>new events. out_file w' = out_file w @ new \<and> trace w' = trace w @ events
     \<and> list_all (\<lambda>l. \<not> is_Header l) new
     \<and> length new = length (rows (heap w hdbs))
     \<and> appended_sizes events = map length (batches B (rows (heap w hdbs)))
     \<and> (wf_frame (heap w hdbs) \<and> set feature_columns \<inter> set (columns (heap w hdbs)) = {}
          \<longrightarrow> map (\<lambda>l. take (length (columns (heap w hdbs))) (cells l)) new = rows (heap w hdbs))
     \<and> (B = 100 \<and> length (rows (heap w hdbs)) = 250 \<longrightarrow> appended_sizes events = [100, 100, 50])"
proof -
  from run_batches_file[OF assms] obtain new events where
    a: "out_file w' = out_file w @ new" "trace w' = trace w @ events"
      "list_all (\<lambda>l. \<not> is_Header l) new" "length new = length (rows (heap w hdbs))"
    and b: "appended_sizes events = map length (batches B (rows (heap w hdbs)))"
    and c: "wf_frame (heap w hdbs) \<and> set feature_columns \<inter> set (columns (heap w hdbs)) = {}
          \<longrightarrow> map (\<lambda>l. take (length (columns (heap w hdbs))) (cells l)) new = rows (heap w hdbs)"
    by blast
  have d: "B = 100 \<and> length (rows (heap w hdbs)) = 250 \<longrightarrow> appended_sizes events = [100, 100, 50]"
    using b batches_250 by auto
  from a b c d show ?thesis by blast
qed

text \<open>
  C4 for 250 subjects in batches of 100: the hypotheses hold, the run completes, 250
  lines are appended in three appends of sizes 100, 100 and 50, in input order.
\<close>

theorem output_is_headerless_witness:
  "(1::nat) \<le> 100 \<and> 0 < next_ref (world_with (subjects 250))
   \<and> fst (run_batches 100 taxi unreachable 0 two_locs two_locs two_locs ''t''
            (world_with (subjects 250))) = Inr ()
   \<and> wf_frame (heap (world_with (subjects 250)) 0)
   \<and> set feature_columns \<inter> set (columns (heap (world_with (subjects 250)) 0)) = {}
   \<and> length (rows (heap (world_with (subjects 250)) 0)) = 250
   \<and> length (out_file (snd (run_batches 100 taxi unreachable 0 two_locs two_locs two_locs ''t''
            (world_with (subjects 250))))) = 250
   \<and> appended_sizes (trace (snd (run_batches 100 taxi unreachable 0 two_locs two_locs two_locs
            ''t'' (world_with (subjects 250))))) = [100, 100, 50]
   \<and> map (\<lambda>l. take 2 (cells l))
        (out_file (snd (run_batches 100 taxi unreachable 0 two_locs two_locs two_locs ''t''
            (world_with (subjects 250))))) = rows (subjects 250)"
proof -
  let ?w = "world_with (subjects 250)"
  let ?run = "run_batches 100 taxi unreachable 0 two_locs two_locs two_locs ''t'' ?w"
  have B: "(1::nat) \<le> 100" by simp
  have alloc: "0 < next_ref ?w" by (rule subjects_world_facts)
  have locs: "usable two_locs" by (rule usable_two_locs)
  have coords: "has_coords (heap ?w 0)" by (simp add: subjects_world_facts has_coords_subjects)
  from run_batches_ok[OF B coords locs locs locs alloc, of taxi unreachable "''t''"]
  obtain w' where run: "?run = (Inr (), w')" by blast
  have wf: "wf_frame (heap ?w 0)" by (simp add: subjects_world_facts)
  have fresh: "set feature_columns \<inter> set (columns (heap ?w 0)) = {}"
    by (simp add: subjects_world_facts)
  have n: "length (rows (heap ?w 0)) = 250" by (simp add: subjects_world_facts)
  from output_is_headerless[OF B alloc run] obtain new events where
    f: "out_file w' = out_file ?w @ new" and t: "trace w' = trace ?w @ events"
    and l: "length new = length (rows (heap ?w 0))"
    and o: "wf_frame (heap ?w 0) \<and> set feature_columns \<inter> set (columns (heap ?w 0)) = {}
          \<longrightarrow> map (\<lambda>l. take (length (columns (heap ?w 0))) (cells l)) new = rows (heap ?w 0)"
    and s: "(100::nat) = 100 \<and> length (rows (heap ?w 0)) = 250
          \<longrightarrow> appended_sizes events = [100, 100, 50]"
    by blast
  have 1: "length (out_file w') = 250" using f l n by (simp add: subjects_world_facts)
  have 2: "appended_sizes (trace w') = [100, 100, 50]"
    using t s n by (simp add: subjects_world_facts)
  have "map (\<lambda>l. take (length (columns (heap ?w 0))) (cells l)) new = rows (heap ?w 0)"
    using o wf fresh by blast
  then have 3: "map (\<lambda>l. take 2 (cells l)) (out_file w') = rows (subjects 250)"
    using f by (simp add: subjects_world_facts) (simp add: subjects_def numeral_2_eq_2)
  from B alloc run wf fresh n 1 2 3 show ?thesis by simp
qed

text \<open>
  The claim C4 as first stated fails for the main program on 250 subjects and an empty
  output file: the run completes and the file then has 250 lines, none of them a header.
\<close>

theorem no_header_row_written:
  "fst (main_batches taxi unreachable 0 two_locs two_locs two_locs ''t''
          (world_with (subjects 250))) = Inr ()
   \<and> out_file (world_with (subjects 250)) = []
   \<and> length (out_file (snd (main_batches taxi unreachable 0 two_locs two_locs two_locs ''t''
          (world_with (subjects 250))))) = 250
   \<and> filter is_Header (out_file (snd (main_batches taxi unreachable 0 two_locs two_locs
          two_locs ''t'' (world_with (subjects 250))))) = []"
proof -
  let ?w = "world_with (subjects 250)"
  let ?run = "run_batches 100 taxi unreachable 0 two_locs two_locs two_locs ''t'' ?w"
  have B: "(1::nat) \<le> 100" by simp
  have alloc: "0 < next_ref ?w" by (rule subjects_world_facts)
  have locs: "usable two_locs" by (rule usable_two_locs)
  have coords: "has_coords (heap ?w 0)" by (simp add: subjects_world_facts has_coords_subjects)
  from run_batches_ok[OF B coords locs locs locs alloc, of taxi unreachable "''t''"]
  obtain w' where run: "?run = (Inr (), w')" by blast
  from run_batches_file[OF B alloc run] obtain new where
    f: "out_file w' = out_file ?w @ new" and h: "list_all (\<lambda>l. \<not> is_Header l) new"
    and l: "length new = length (rows (heap ?w 0))"
    by blast
  have 1: "length (out_file w') = 250" using f l by (simp add: subjects_world_facts)
  have "filter is_Header new = []" using h by (simp add: list_all_iff filter_empty_conv)
  then have 2: "filter is_Header (out_file w') = []" using f by (simp add: subjects_world_facts)
  from run 1 2 show ?thesis by (simp add: main_batches_def BATCH_SIZE_def subjects_world_facts)
qed

text \<open>
  C5, as amended: in every run of the batch loop with batch size \<open>B \<ge> 1\<close>, whether it
  completes or stops at an exception, no more than \<open>2 * B\<close> requests are sent to the
  routing endpoint between two consecutive pauses (or before the first, or after the
  last); and in a run that completes, the number sent for each batch before its pause
  is exactly twice the number of subjects of the batch, and none is sent after the last
  pause.  Under the reference parameters that is at most 200 requests per batch.
\<close>

theorem requests_between_cooldowns:
  assumes "1 \<le> B" and "hdbs < next_ref w"
    and "run_batches B hav srv hdbs mrts malls schools api_token w = (r, w')"
  shows "\<exists>events. trace w' = trace w @ events
      \<and> list_all (\<lambda>n. n \<le> 2 * B) (requests_between_pauses 0 events)
      \<and> (\<forall>u. r = Inr u \<longrightarrow> requests_between_pauses 0 events =
             map (\<lambda>b. 2 * length b) (batches B (rows (heap w hdbs))) @ [0])"
  using run_batches_requests[OF assms] .

text \<open>
  C5 for 250 subjects in batches of 100: the hypotheses hold, the run completes, and
  the requests before the three pauses number 200, 200 and 100.
\<close>

theorem requests_between_cooldowns_witness:
  "(1::nat) \<le> 100 \<and> 0 < next_ref (world_with (subjects 250))
   \<and> fst (run_batches 100 taxi unreachable 0 two_locs two_locs two_locs ''t''
            (world_with (subjects 250))) = Inr ()
   \<and> requests_between_pauses 0
        (trace (snd (run_batches 100 taxi unreachable 0 two_locs two_locs two_locs ''t''
            (world_with (subjects 250))))) = [200, 200, 100, 0]"
proof -
  let ?w = "world_with (subjects 250)"
  let ?run = "run_batches 100 taxi unreachable 0 two_locs two_locs two_locs ''t'' ?w"
  have B: "(1::nat) \<le> 100" by simp
  have alloc: "0 < next_ref ?w" by (rule subjects_world_facts)
  have locs: "usable two_locs" by (rule usable_two_locs)
  have coords: "has_coords (heap ?w 0)" by (simp add: subjects_world_facts has_coords_subjects)
  from run_batches_ok[OF B coords locs locs locs alloc, of taxi unreachable "''t''"]
  obtain w' where run: "?run = (Inr (), w')" by blast
  from requests_between_cooldowns[OF B alloc run] obtain events where
    t: "trace w' = trace ?w @ events"
    and c: "requests_between_pauses 0 events =
             map (\<lambda>b. 2 * length b) (batches 100 (rows (heap ?w 0))) @ [0]"
    by blast
  have "map (\<lambda>b. 2 * length b) (batches 100 (rows (subjects 250)))
          = map (\<lambda>n. 2 * n) (map length (batches 100 (rows (subjects 250))))"
    by (simp add: comp_def)
  also have "\<dots> = [200, 200, 100]"
    using batches_250[of "rows (subjects 250)"] by (simp add: subjects_world_facts)
  finally have "requests_between_pauses 0 (trace w') = [200, 200, 100, 0]"
    using t c by (simp add: subjects_world_facts)
  with B alloc run show ?thesis by simp
qed

text \<open>
  The claim C5 as first stated fails for the main program on 100 subjects: the run
  completes, and its single batch sends 200 requests before the pause, more than
  \<open>BATCH_SIZE\<close>.
\<close>

theorem batch_sends_two_requests_per_subject:
  "fst (main_batches taxi unreachable 0 two_locs two_locs two_locs ''t''
          (world_with (subjects 100))) = Inr ()
   \<and> requests_between_pauses 0
        (trace (snd (main_batches taxi unreachable 0 two_locs two_locs two_locs ''t''
          (world_with (subjects 100))))) = [200, 0]
   \<and> \<not> 200 \<le> BATCH_SIZE"
proof -
  let ?w = "world_with (subjects 100)"
  let ?run = "run_batches 100 taxi unreachable 0 two_locs two_locs two_locs ''t'' ?w"
  have B: "(1::nat) \<le> 100" by simp
  have alloc: "0 < next_ref ?w" by (rule subjects_world_facts)
  have locs: "usable two_locs" by (rule usable_two_locs)
  have coords: "has_coords (heap ?w 0)" by (simp add: subjects_world_facts has_coords_subjects)
  from run_batches_ok[OF B coords locs locs locs alloc, of taxi unreachable "''t''"]
  obtain w' where run: "?run = (Inr (), w')" by blast
  from run_batches_requests[OF B alloc run] obtain events where
    t: "trace w' = trace ?w @ events"
    and c: "requests_between_pauses 0 events =
             map (\<lambda>b. 2 * length b) (batches 100 (rows (heap ?w 0))) @ [0]"
    by blast
  have "map (\<lambda>b. 2 * length b) (batches 100 (rows (subjects 100)))
          = map (\<lambda>n. 2 * n) (map length (batches 100 (rows (subjects 100))))"
    by (simp add: comp_def)
  also have "\<dots> = [200]"
    using batches_100[of "rows (subjects 100)"] by (simp add: subjects_world_facts)
  finally have "requests_between_pauses 0 (trace w') = [200, 0]"
    using t c by (simp add: subjects_world_facts)
  with run show ?thesis by (simp add: main_batches_def BATCH_SIZE_def)
qed

section \<open>The claim about the partition into batches\<close>

text \<open>
  C3: for every batch size \<open>B \<ge> 1\<close> and every table of \<open>N\<close> subjects, the batch loop
  works through the slices \<open>batches B\<close> of the subjects' rows, in order: the appends it
  makes to the output file are, one after the other, of the sizes of the first \<open>n\<close>
  slices, where \<open>n\<close> is the number of batches completed, and a run that returns has
  completed all of them; when the table is well formed and has none of the six labels,
  the appended rows begin with the cells of the rows of these slices, in input order.
  There are exactly \<open>\<lceil>N / B\<rceil>\<close> slices; slice \<open>i\<close> is the contiguous stretch of at most
  \<open>B\<close> rows that starts at position \<open>i * B\<close>; every slice but the last has exactly \<open>B\<close>
  rows and none is empty; and the slices put end to end are the table's rows, so every
  subject is in exactly one batch.
\<close>

theorem batches_partition:
  assumes "1 \<le> B" and "hdbs < next_ref w"
    and "run_batches B hav srv hdbs mrts malls schools api_token w = (r, w')"
  shows "\<exists>n new events. out_file w' = out_file w @ new \<and> trace w' = trace w @ events
     \<and> n \<le> length (batches B (rows (heap w hdbs)))
     \<and> (\<forall>u. r = Inr u \<longrightarrow> n = length (batches B (rows (heap w hdbs))))
     \<and> appended_sizes events = map length (take n (batches B (rows (heap w hdbs))))
     \<and> length new = length (concat (take n (batches B (rows (heap w hdbs)))))
     \<and> (wf_frame (heap w hdbs) \<and> set feature_columns \<inter> set (columns (heap w hdbs)) = {}
          \<longrightarrow> map (\<lambda>l. take (length (columns (heap w hdbs))) (cells l)) new
                = concat (take n (batches B (rows (heap w hdbs)))))
     \<and> length (batches B (rows (heap w hdbs)))
          = nat \<lceil>real (length (rows (heap w hdbs))) / real B\<rceil>
     \<and> concat (batches B (rows (heap w hdbs))) = rows (heap w hdbs)
     \<and> (\<forall>i<length (batches B (rows (heap w hdbs))).
            batches B (rows (heap w hdbs)) ! i = take B (drop (i * B) (rows (heap w hdbs)))
          \<and> 1 \<le> length (batches B (rows (heap w hdbs)) ! i)
          \<and> length (batches B (rows (heap w hdbs)) ! i) \<le> B)
     \<and> (\<forall>i. Suc i < length (batches B (rows (heap w hdbs)))
            \<longrightarrow> length (batches B (rows (heap w hdbs)) ! i) = B)"
proof -
  let ?xs = "rows (heap w hdbs)"
  from run_batches_progress[OF assms] obtain n new events where
    p: "out_file w' = out_file w @ new" "trace w' = trace w @ events"
     "n \<le> length (batches B ?xs)"
     "\<forall>u. r = Inr u \<longrightarrow> n = length (batches B ?xs)"
     "appended_sizes events = map length (take n (batches B ?xs))"
     "length new = length (concat (take n (batches B ?xs)))"
     "wf_frame (heap w hdbs) \<and> set feature_columns \<inter> set (columns (heap w hdbs)) = {}
          \<longrightarrow> map (\<lambda>l. take (length (columns (heap w hdbs))) (cells l)) new
                = concat (take n (batches B ?xs))"
    by blast
  have B: "1 \<le> B" by (rule assms(1))
  have a: "length (batches B ?xs) = nat \<lceil>real (length ?xs) / real B\<rceil>"
    using batch_count_ceiling[OF B] by (simp add: length_batches)
  have b: "concat (batches B ?xs) = ?xs" by (rule concat_batches[OF B])
  have c: "\<forall>i<length (batches B ?xs).
            batches B ?xs ! i = take B (drop (i * B) ?xs)
          \<and> 1 \<le> length (batches B ?xs ! i) \<and> length (batches B ?xs ! i) \<le> B"
  proof (intro allI impI conjI)
    fix i assume "i < length (batches B ?xs)"
    then have i: "i < batch_count B (length ?xs)" by (simp add: length_batches)
    show "batches B ?xs ! i = take B (drop (i * B) ?xs)" by (rule batches_nth(1)[OF B i])
    show "1 \<le> length (batches B ?xs ! i)" by (rule batches_sizes(1)[OF B i])
    show "length (batches B ?xs ! i) \<le> B" by (rule batches_sizes(2)[OF B i])
  qed
  have d: "\<forall>i. Suc i < length (batches B ?xs) \<longrightarrow> length (batches B ?xs ! i) = B"
  proof (intro allI impI)
    fix i assume "Suc i < length (batches B ?xs)"
    then have i: "Suc i < batch_count B (length ?xs)" by (simp add: length_batches)
    then have "i < batch_count B (length ?xs)" by simp
    then show "length (batches B ?xs ! i) = B" using i by (rule batches_sizes(3)[OF B])
  qed
  from p a b c d show ?thesis by blast
qed

text \<open>
  C3 for five subjects in batches of two: the run returns, its three appends have sizes
  2, 2 and 1, and the appended rows begin with the five subjects' cells, in order.
\<close>

theorem batches_partition_witness:
  "(1::nat) \<le> 2 \<and> 0 < next_ref (world_with (subjects 5))
   \<and> fst (run_batches 2 taxi unreachable 0 two_locs two_locs two_locs ''t''
            (world_with (subjects 5))) = Inr ()
   \<and> wf_frame (heap (world_with (subjects 5)) 0)
   \<and> set feature_columns \<inter> set (columns (heap (world_with (subjects 5)) 0)) = {}
   \<and> appended_sizes (trace (snd (run_batches 2 taxi unreachable 0 two_locs two_locs two_locs
            ''t'' (world_with (subjects 5))))) = [2, 2, 1]
   \<and> map (\<lambda>l. take 2 (cells l))
        (out_file (snd (run_batches 2 taxi unreachable 0 two_locs two_locs two_locs ''t''
            (world_with (subjects 5))))) = rows (subjects 5)
   \<and> nat \<lceil>real 5 / real 2\<rceil> = 3"
proof -
  let ?w = "world_with (subjects 5)"
  let ?run = "run_batches 2 taxi unreachable 0 two_locs two_locs two_locs ''t'' ?w"
  let ?bs = "batches 2 (rows (heap ?w 0))"
  have B: "(1::nat) \<le> 2" by simp
  have alloc: "0 < next_ref ?w" by (rule subjects_world_facts)
  have locs: "usable two_locs" by (rule usable_two_locs)
  have coords: "has_coords (heap ?w 0)" by (simp add: subjects_world_facts has_coords_subjects)
  from run_batches_ok[OF B coords locs locs locs alloc, of taxi unreachable "''t''"]
  obtain w' where run: "?run = (Inr (), w')" by blast
  have wf: "wf_frame (heap ?w 0)" by (simp add: subjects_world_facts)
  have fresh: "set feature_columns \<inter> set (columns (heap ?w 0)) = {}"
    by (simp add: subjects_world_facts)
  from batches_partition[OF B alloc run] obtain n new events where
    f: "out_file w' = out_file ?w @ new" and t: "trace w' = trace ?w @ events"
    and n: "\<forall>u. Inr () = Inr u \<longrightarrow> n = length ?bs"
    and s: "appended_sizes events = map length (take n ?bs)"
    and o: "wf_frame (heap ?w 0) \<and> set feature_columns \<inter> set (columns (heap ?w 0)) = {}
          \<longrightarrow> map (\<lambda>l. take (length (columns (heap ?w 0))) (cells l)) new = concat (take n ?bs)"
    and l: "length ?bs = nat \<lceil>real (length (rows (heap ?w 0))) / real 2\<rceil>"
    and c: "concat ?bs = rows (heap ?w 0)"
    by blast
  have n': "n = length ?bs" using n by simp
  have sz: "map length ?bs = [2, 2, 1]"
    using batches_5[of "rows (heap ?w 0)"] by (simp add: subjects_world_facts)
  have 1: "appended_sizes (trace w') = [2, 2, 1]"
    using t s n' sz by (simp add: subjects_world_facts)
  have "map (\<lambda>l. take (length (columns (heap ?w 0))) (cells l)) new = concat (take n ?bs)"
    using o wf fresh by blast
  then have 2: "map (\<lambda>l. take 2 (cells l)) (out_file w') = rows (subjects 5)"
    using f n' c by (simp add: subjects_world_facts) (simp add: subjects_def numeral_2_eq_2)
  have "length ?bs = 3" using sz by (metis length_map length_Cons list.size(3) numeral_3_eq_3)
  then have 3: "nat \<lceil>real 5 / real 2\<rceil> = 3" using l by (simp add: subjects_world_facts)
  from B alloc run wf fresh 1 2 3 show ?thesis by simp
qed

section \<open>The remaining-lease transform\<close>

lemma digit_cases:
  assumes "d < (10::nat)"
  shows "d = 0 \<or> d = 1 \<or> d = 2 \<or> d = 3 \<or> d = 4 \<or> d = 5 \<or> d = 6 \<or> d = 7 \<or> d = 8 \<or> d = 9"
  using assms by arith

lemma digit_val_digit_char: "d < 10 \<Longrightarrow> digit_val (digit_char d) = Some d"
  using digit_cases[of d] by (auto simp: digit_val_def digit_char_def)

lemma digit_char_plain:
  assumes "d < 10"
  shows "\<not> is_space (digit_char d)" and "digit_char d \<noteq> CHR ''m''"
    and "digit_char d \<noteq> CHR ''-''" and "digit_char d \<noteq> CHR ''+''"
  using digit_cases[OF assms] by (auto simp: digit_char_def is_space_def)

lemma decimal_digits: "\<forall>c\<in>set (decimal n). \<exists>d<10. c = digit_char d"
proof (induction n rule: decimal.induct)
  case (1 n)
  have last: "\<exists>d<10. digit_char (n mod 10) = digit_char d"
    by (rule exI[of _ "n mod 10"]) simp
  show ?case
  proof (cases "n < 10")
    case True
    then have "decimal n = [digit_char n]" by (subst decimal.simps) simp
    then show ?thesis using True by auto
  next
    case False
    then have "decimal n = decimal (n div 10) @ [digit_char (n mod 10)]"
      by (subst decimal.simps) simp
    then show ?thesis using 1[OF False] last by auto
  qed
qed

lemma decimal_nonempty: "decimal n \<noteq> []"
  by (subst decimal.simps) simp

lemma int_digits_digit:
  "digit_val c = Some k \<Longrightarrow> int_digits acc (c # cs) = int_digits (10 * acc + k) cs"
  by (cases cs) simp_all

lemma int_digits_snoc:
  assumes "\<forall>c\<in>set ds. \<exists>d<10. c = digit_char d" and "d < 10"
  shows "int_digits acc (ds @ [digit_char d]) =
           (case int_digits acc ds of Inl e \<Rightarrow> Inl e | Inr v \<Rightarrow> Inr (10 * v + d))"
  using assms(1)
proof (induction ds arbitrary: acc)
  case Nil
  then show ?case by (simp add: digit_val_digit_char[OF assms(2)])
next
  case (Cons c ds)
  then obtain k where k: "k < 10" "c = digit_char k" by auto
  then have dv: "digit_val c = Some k" by (simp add: digit_val_digit_char)
  have rest: "\<forall>c\<in>set ds. \<exists>d<10. c = digit_char d" using Cons.prems by simp
  have "int_digits acc ((c # ds) @ [digit_char d]) = int_digits (10 * acc + k) (ds @ [digit_char d])"
    using int_digits_digit[OF dv] by simp
  also have "\<dots> = (case int_digits (10 * acc + k) ds of
                       Inl e \<Rightarrow> Inl e | Inr v \<Rightarrow> Inr (10 * v + d))"
    by (rule Cons.IH[OF rest])
  also have "int_digits (10 * acc + k) ds = int_digits acc (c # ds)"
    using int_digits_digit[OF dv] by simp
  finally show ?case .
qed

lemma int_unsigned_decimal: "int_unsigned (decimal n) = Inr n"
proof (induction n rule: decimal.induct)
  case (1 n)
  show ?case
  proof (cases "n < 10")
    case True
    then show ?thesis
      by (subst decimal.simps) (simp add: int_unsigned_def digit_val_digit_char)
  next
    case False
    then have IH: "int_unsigned (decimal (n div 10)) = Inr (n div 10)" using 1 by simp
    obtain c cs where cs: "decimal (n div 10) = c # cs"
      using decimal_nonempty[of "n div 10"] by (cases "decimal (n div 10)") auto
    from decimal_digits[of "n div 10"] cs obtain k where k: "k < 10" "c = digit_char k"
      and rest: "\<forall>c\<in>set cs. \<exists>d<10. c = digit_char d" by auto
    from IH cs k have a: "int_digits k cs = Inr (n div 10)"
      by (simp add: int_unsigned_def digit_val_digit_char)
    have m: "n mod 10 < 10" by simp
    have "decimal n = c # cs @ [digit_char (n mod 10)]"
      using False cs by (subst decimal.simps) simp
    then have "int_unsigned (decimal n) = int_digits k (cs @ [digit_char (n mod 10)])"
      using k by (simp add: int_unsigned_def digit_val_digit_char)
    also have "\<dots> = Inr (10 * (n div 10) + n mod 10)"
      using int_digits_snoc[OF rest m, of k] a by simp
    finally show ?thesis by simp
  qed
qed

lemma py_int_decimal: "py_int (decimal n) = Inr (int n)"
proof -
  obtain c cs where cs: "decimal n = c # cs"
    using decimal_nonempty[of n] by (cases "decimal n") auto
  from decimal_digits[of n] cs obtain k where "k < 10" "c = digit_char k" by auto
  then have "c \<noteq> CHR ''-''" "c \<noteq> CHR ''+''" using digit_char_plain by auto
  then have "py_int (decimal n) = (case int_unsigned (decimal n) of Inl e \<Rightarrow> Inl e | Inr n \<Rightarrow> Inr (int n))"
    by (simp add: py_int_def cs)
  then show ?thesis by (simp add: int_unsigned_decimal)
qed

lemma split_from_token:
  "\<forall>c\<in>set t. \<not> is_space c \<Longrightarrow> split_from cur (t @ rest) = split_from (cur @ t) rest"
  by (induction t arbitrary: cur) auto

lemma decimal_no_space: "\<forall>c\<in>set (decimal n). \<not> is_space c"
proof
  fix c assume "c \<in> set (decimal n)"
  then obtain d where "d < 10" "c = digit_char d" using decimal_digits[of n] by blast
  then show "\<not> is_space c" using digit_char_plain(1) by simp
qed

lemma decimal_no_m: "\<forall>c\<in>set (decimal n). c \<noteq> CHR ''m''"
proof
  fix c assume "c \<in> set (decimal n)"
  then obtain d where "d < 10" "c = digit_char d" using decimal_digits[of n] by blast
  then show "c \<noteq> CHR ''m''" using digit_char_plain(2) by simp
qed

lemma py_split_years_months:
  "py_split (decimal Y @ '' years '' @ decimal M @ '' months'')
     = [decimal Y, ''years'', decimal M, ''months'']"
proof -
  have a: "split_from [] (decimal M @ '' months'') = [decimal M, ''months'']"
    using split_from_token[OF decimal_no_space, of "[]" M "'' months''"]
    by (simp add: is_space_def decimal_nonempty)
  have "split_from [] (decimal Y @ '' years '' @ decimal M @ '' months'')
          = split_from (decimal Y) ('' years '' @ decimal M @ '' months'')"
    using split_from_token[OF decimal_no_space, of "[]" Y] by simp
  also have "\<dots> = decimal Y # ''years'' # split_from [] (decimal M @ '' months'')"
    by (simp add: is_space_def decimal_nonempty)
  finally show ?thesis using a by (simp add: py_split_def)
qed

lemma py_split_years: "py_split (decimal Y @ '' years'') = [decimal Y, ''years'']"
  using split_from_token[OF decimal_no_space, of "[]" Y "'' years''"]
  by (simp add: py_split_def is_space_def decimal_nonempty)

lemma starts_with_self: "starts_with sub (sub @ post)"
  by (induction sub) auto

lemma contains_append: "contains sub rest \<Longrightarrow> contains sub (pre @ rest)"
  by (induction pre) auto

lemma contains_here: "contains sub (sub @ post)"
proof (cases "sub @ post")
  case Nil
  then show ?thesis by simp
next
  case (Cons c cs)
  then show ?thesis using starts_with_self[of sub post] by simp
qed

lemma contains_month_skip:
  "\<forall>c\<in>set pre. c \<noteq> CHR ''m'' \<Longrightarrow> contains ''month'' (pre @ rest) = contains ''month'' rest"
  by (induction pre) auto

lemma contains_years_months:
  "contains ''month'' (decimal Y @ '' years '' @ decimal M @ '' months'')"
proof -
  have "contains ''month'' (''month'' @ ''s'')" by (rule contains_here)
  then have "contains ''month'' ((decimal Y @ '' years '' @ decimal M @ '' '') @ ''month'' @ ''s'')"
    by (rule contains_append)
  then show ?thesis by simp
qed

lemma contains_years: "\<not> contains ''month'' (decimal Y @ '' years'')"
  using contains_month_skip[OF decimal_no_m, of Y "'' years''"] by simp

lemma decimal_61: "decimal 61 = ''61''" "decimal 4 = ''4''"
  by (simp_all add: decimal.simps digit_char_def)

section \<open>Properties of the rounding to 64 bits and of the lease transform\<close>

lemma bit_length_le: "n < 2 ^ B \<Longrightarrow> bit_length n \<le> B"
proof (induction B arbitrary: n)
  case 0
  then have "n = 0" by simp
  then show ?case by (simp add: bit_length.simps)
next
  case (Suc B)
  show ?case
  proof (cases "n = 0")
    case True
    then show ?thesis by (simp add: bit_length.simps)
  next
    case False
    have "n div 2 < 2 ^ B" using Suc.prems by simp
    from Suc.IH[OF this] show ?thesis using False by (subst bit_length.simps) simp
  qed
qed

lemma exponent_le:
  assumes "\<bar>x\<bar> < 2 ^ B" and "1 \<le> B"
  shows "exponent x \<le> int B - 1"
proof (cases "1 \<le> \<bar>x\<bar>")
  case True
  have "\<lfloor>\<bar>x\<bar>\<rfloor> < 2 ^ B" using assms(1) by (simp add: floor_less_iff)
  then have "nat \<lfloor>\<bar>x\<bar>\<rfloor> < 2 ^ B" by (simp add: nat_less_iff)
  from bit_length_le[OF this] show ?thesis using True by (simp add: exponent_def)
next
  case False
  then show ?thesis using assms(2) by (simp add: exponent_def)
qed

lemma pow2_pos: "0 < pow2 q"
  by (simp add: pow2_def)

lemma pow2_neg: "pow2 (- int n) = 1 / 2 ^ n"
  by (simp add: pow2_def)

lemma pow2_mono: "q \<le> q' \<Longrightarrow> pow2 q \<le> pow2 q'"
proof -
  assume le: "q \<le> q'"
  have eq: "pow2 r = 2 powi r" for r
    by (simp add: pow2_def power_int_def inverse_eq_divide power_one_over)
  show ?thesis unfolding eq using le by (intro power_int_increasing) simp_all
qed

lemma round_half_even_error: "\<bar>of_int (round_half_even s) - s\<bar> \<le> 1 / 2"
proof -
  define f where "f = \<lfloor>s\<rfloor>"
  define r where "r = s - of_int f"
  have r: "0 \<le> r" "r < 1" unfolding r_def f_def by linarith+
  have s: "s = of_int f + r" unfolding r_def by simp
  have "round_half_even s = (if r < 1 / 2 then f else if r > 1 / 2 then f + 1
                             else if even f then f else f + 1)"
    unfolding round_half_even_def Let_def r_def f_def by simp
  then show ?thesis using r unfolding s by (auto split: if_splits)
qed

lemma round_half_even_near:
  assumes "\<bar>s - of_int k\<bar> < 1 / 2"
  shows "round_half_even s = k"
proof (cases "of_int k \<le> s")
  case True
  then have "\<lfloor>s\<rfloor> = k" using assms by (intro floor_unique) linarith+
  then show ?thesis using assms True by (simp add: round_half_even_def Let_def)
next
  case False
  then have "\<lfloor>s\<rfloor> = k - 1" using assms by (intro floor_unique) (simp, linarith)+
  then show ?thesis using assms False by (simp add: round_half_even_def Let_def)
qed

lemma round_half_even_of_int [simp]: "round_half_even (of_int k) = k"
  by (rule round_half_even_near) simp

lemma fl_error:
  assumes "\<bar>x\<bar> < 2 ^ B" and "1 \<le> B"
  shows "\<bar>fl x - x\<bar> \<le> pow2 (int B - 53) / 2"
proof (cases "x = 0")
  case True
  then show ?thesis using pow2_pos[of "int B - 53"] by (simp add: fl_def)
next
  case False
  define q where "q = max (exponent x - 52) (- 1074)"
  define p where "p = pow2 q"
  have p: "0 < p" unfolding p_def by (rule pow2_pos)
  have "q \<le> int B - 53" using exponent_le[OF assms] assms(2) unfolding q_def by simp
  then have pB: "p \<le> pow2 (int B - 53)" unfolding p_def by (rule pow2_mono)
  have fl: "fl x = of_int (round_half_even (x / p)) * p"
    using False by (simp add: fl_def Let_def q_def p_def)
  have "fl x - x = (of_int (round_half_even (x / p)) - x / p) * p"
    using p by (simp add: fl algebra_simps)
  then have "\<bar>fl x - x\<bar> = \<bar>of_int (round_half_even (x / p)) - x / p\<bar> * p"
    using p by (simp add: abs_mult)
  also have "\<dots> \<le> (1 / 2) * p"
    using round_half_even_error[of "x / p"] p by (intro mult_right_mono) simp_all
  finally show ?thesis using pB by simp
qed

lemma fl_nat_exact:
  assumes "n < 2 ^ 53"
  shows "fl (real n) = real n"
proof (cases "n = 0")
  case True
  then show ?thesis by (simp add: fl_def)
next
  case False
  define q where "q = max (exponent (real n) - 52) (- 1074)"
  have "\<bar>real n\<bar> < 2 ^ 53" using assms by (metis abs_of_nat of_nat_less_numeral_power_cancel_iff)
  from exponent_le[OF this] have "q \<le> 0" unfolding q_def by simp
  then obtain k where k: "q = - int k" by (metis nat_0_le neg_le_0_iff_le minus_minus)
  have p: "pow2 q = 1 / 2 ^ k" unfolding k by (rule pow2_neg)
  have "real n / pow2 q = of_int (int n * 2 ^ k)" by (simp add: p)
  then have "round_half_even (real n / pow2 q) = int n * 2 ^ k"
    by (simp only: round_half_even_of_int)
  then have "fl (real n) = of_int (int n * 2 ^ k) * pow2 q"
    using False by (simp add: fl_def Let_def q_def[symmetric])
  then show ?thesis by (simp add: p)
qed

lemma finite_float_ok: "\<bar>r\<bar> < 2 ^ 1024 \<Longrightarrow> finite_float r = Inr (Fin r)"
  by (simp add: finite_float_def)

lemmas float_simps = exponent_def pow2_def round_half_even_def fl_def finite_float_def
  float_of_int_def int_truediv_def Let_def bit_length.simps

lemmas lease_simps = remaining_lease_def py_split_def is_space_def subscript_def py_int_def
  int_unsigned_def digit_val_def float_simps

lemma two_power_40_small: "(2::real) ^ 40 < 2 ^ 1024"
  by (rule power_strict_increasing) simp_all

lemma lease_months:
  assumes Y: "Y < 2 ^ 32" and M: "M < 2 ^ 32"
  shows "\<exists>k::int. remaining_lease (decimal Y @ '' years '' @ decimal M @ '' months'')
                  = Inr (Fin (fl (of_int k / 1000)))
              \<and> \<bar>of_int k / 1000 - (real Y + real M / 12)\<bar> < 1 / 2000"
proof -
  define x where "x = decimal Y @ '' years '' @ decimal M @ '' months''"
  have sp: "py_split x = [decimal Y, ''years'', decimal M, ''months'']"
    unfolding x_def by (rule py_split_years_months)
  have ct: "contains ''month'' x" unfolding x_def by (rule contains_years_months)
  define v where "v = real Y + real M / 12"
  define b where "b = fl (real M / 12)"
  define s where "s = fl (real Y + b)"
  define k :: int where "k = (3000 * int Y + 250 * int M + 1) div 3"
  define r where "r = fl (of_int k / 1000)"
  have "real Y < 2 ^ 32" using Y by (metis of_nat_less_numeral_power_cancel_iff)
  then have Yr: "real Y < 4294967296" by simp
  have "real M < 2 ^ 32" using M by (metis of_nat_less_numeral_power_cancel_iff)
  then have Mr: "real M < 4294967296" by simp
  have Y0: "0 \<le> real Y" and M0: "0 \<le> real M" by simp_all
  have p: "pow2 (int 32 - 53) / 2 = 1 / 4194304" "pow2 (int 33 - 53) / 2 = 1 / 2097152"
    "pow2 (int 35 - 53) / 2 = 1 / 524288"
    by (simp_all add: pow2_def)
  have "\<bar>real M / 12\<bar> < 4294967296" using Mr M0 by linarith
  then have "\<bar>real M / 12\<bar> < 2 ^ 32" by simp
  from fl_error[OF this] have eb: "\<bar>b - real M / 12\<bar> \<le> 1 / 4194304"
    unfolding b_def p by simp
  have bb: "\<bar>b\<bar> < 4294967296" using eb Mr M0 by linarith
  have "\<bar>real Y + b\<bar> < 8589934592" using bb Yr Y0 by linarith
  then have "\<bar>real Y + b\<bar> < 2 ^ 33" by simp
  from fl_error[OF this] have es: "\<bar>s - (real Y + b)\<bar> \<le> 1 / 2097152"
    unfolding s_def p by simp
  have sv: "\<bar>s - v\<bar> \<le> 3 / 4194304" using eb es unfolding v_def by linarith
  have vb: "0 \<le> v" "v < 8589934592" using Yr Mr Y0 M0 unfolding v_def by linarith+
  have sb: "\<bar>s\<bar> < 17179869184" using sv vb by linarith
  have k3: "3 * k \<le> 3000 * int Y + 250 * int M + 1" "3000 * int Y + 250 * int M \<le> 3 * k + 1"
    unfolding k_def by linarith+
  have v3: "3000 * v = 3000 * real Y + 250 * real M" unfolding v_def by simp
  have "real_of_int (3 * k) \<le> real_of_int (3000 * int Y + 250 * int M + 1)"
    using k3(1) by (simp only: of_int_le_iff)
  then have k1: "3 * real_of_int k \<le> 3000 * v + 1" unfolding v3 by simp
  have "real_of_int (3000 * int Y + 250 * int M) \<le> real_of_int (3 * k + 1)"
    using k3(2) by (simp only: of_int_le_iff)
  then have k2: "3000 * v \<le> 3 * real_of_int k + 1" unfolding v3 by simp
  have kv: "\<bar>1000 * v - of_int k\<bar> \<le> 1 / 3" using k1 k2 by linarith
  have "\<bar>s * 1000 - of_int k\<bar> < 1 / 2" using kv sv by linarith
  then have rh: "round_half_even (s * 1000) = k" by (rule round_half_even_near)
  have kn: "\<bar>real_of_int k / 1000\<bar> < 34359738368" using kv vb by linarith
  then have kb: "\<bar>real_of_int k / 1000\<bar> < 2 ^ 35" by simp
  from fl_error[OF kb] have "\<bar>r - of_int k / 1000\<bar> \<le> 1 / 524288"
    unfolding r_def p by simp
  then have "\<bar>r\<bar> < 1099511627776" using kn by linarith
  then have rb: "\<bar>r\<bar> < 2 ^ 40" by simp
  have rfin: "\<bar>r\<bar> < 2 ^ 1024" using rb two_power_40_small by (rule less_trans)
  have "(4294967296::real) < 2 ^ 40" "(17179869184::real) < 2 ^ 40" by simp_all
  then have bfin: "\<bar>b\<bar> < 2 ^ 1024" and sfin: "\<bar>s\<bar> < 2 ^ 1024" and Yfin: "\<bar>real Y\<bar> < 2 ^ 1024"
    using bb sb Yr Y0 two_power_40_small by linarith+
  have Y53: "Y < 2 ^ 53" using Y by (rule less_trans) simp
  have f1: "int_truediv (int M) 12 = Inr (Fin b)"
    using bfin by (simp add: int_truediv_def b_def[symmetric] finite_float_def)
  have f2: "float_of_int (int Y) = Inr (Fin (real Y))"
    using Yfin by (simp add: float_of_int_def fl_nat_exact[OF Y53] finite_float_def)
  have s1: "\<not> 2 ^ 1024 \<le> s" "\<not> s \<le> - (2 ^ 1024)" using sfin by linarith+
  have f3: "float_add (Fin (real Y)) (Fin b) = Fin s"
    using s1 by (simp add: s_def[symmetric] Let_def)
  have f4: "py_round (Fin s) 3 = Inr (Fin r)"
    using rfin by (simp add: rh r_def[symmetric] finite_float_def)
  have "remaining_lease x = py_round (float_add (Fin (real Y)) (Fin b)) 3"
    by (simp add: remaining_lease_def sp ct subscript_def py_int_decimal numeral_2_eq_2 f1 f2
        del: float_add.simps py_round.simps)
  then have "remaining_lease x = Inr (Fin r)" by (simp only: f3 f4)
  then have run: "remaining_lease (decimal Y @ '' years '' @ decimal M @ '' months'')
                    = Inr (Fin (fl (of_int k / 1000)))"
    unfolding x_def r_def .
  have "\<bar>of_int k / 1000 - v\<bar> < 1 / 2000" using kv by linarith
  then have "\<bar>of_int k / 1000 - (real Y + real M / 12)\<bar> < 1 / 2000"
    unfolding v_def .
  with run show ?thesis by blast
qed

lemma lease_years:
  assumes Y: "Y < 2 ^ 53"
  shows "remaining_lease (decimal Y @ '' years'') = Inr (Fin (real Y))"
proof -
  define y where "y = decimal Y @ '' years''"
  have sp: "py_split y = [decimal Y, ''years'']" unfolding y_def by (rule py_split_years)
  have ct: "\<not> contains ''month'' y" unfolding y_def by (rule contains_years)
  have Yr: "real Y < 2 ^ 53" using Y by (metis of_nat_less_numeral_power_cancel_iff)
  have big53: "(2::real) ^ 53 < 2 ^ 1024" by (rule power_strict_increasing) simp_all
  have "real Y < 2 ^ 1024" using Yr big53 by (rule less_trans)
  then have fin: "\<bar>real Y\<bar> < 2 ^ 1024" by simp
  have s1: "\<not> 2 ^ 1024 \<le> real Y" "\<not> real Y \<le> - (2 ^ 1024)" using fin by linarith+
  have f1: "int_truediv 0 12 = Inr (Fin 0)"
    by (simp add: int_truediv_def fl_def finite_float_def)
  have f2: "float_of_int (int Y) = Inr (Fin (real Y))"
    using fin by (simp add: float_of_int_def fl_nat_exact[OF Y] finite_float_def)
  have f3: "float_add (Fin (real Y)) (Fin 0) = Fin (real Y)"
    using s1 by (simp add: fl_nat_exact[OF Y] Let_def)
  have "real Y * 1000 = of_int (int Y * 1000)" by simp
  then have rh: "round_half_even (real Y * 1000) = int Y * 1000"
    by (simp only: round_half_even_of_int)
  have f4: "py_round (Fin (real Y)) 3 = Inr (Fin (real Y))"
    using fin by (simp add: rh fl_nat_exact[OF Y] finite_float_def)
  have "remaining_lease y = py_round (float_add (Fin (real Y)) (Fin 0)) 3"
    by (simp add: remaining_lease_def sp ct subscript_def py_int_decimal f1 f2
        del: float_add.simps py_round.simps)
  then have "remaining_lease y = Inr (Fin (real Y))" by (simp only: f3 f4)
  then show ?thesis unfolding y_def .
qed

section \<open>The claim about the remaining lease\<close>

text \<open>
  C9, as amended: for natural numbers \<open>Y\<close> and \<open>M\<close> below \<open>2 ^ 32\<close>, written in decimal, the
  transform maps \<open>"<Y> years <M> months"\<close> to the 64-bit float nearest to \<open>Y + M / 12\<close>
  rounded to three decimal places, that is, nearest to the one multiple \<open>k / 1000\<close> of
  0.001 that is nearer to \<open>Y + M / 12\<close> than half of 0.001; for \<open>Y\<close> below \<open>2 ^ 53\<close> it
  maps \<open>"<Y> years"\<close> to \<open>Y\<close> exactly; in particular \<open>"61 years 4 months"\<close> goes to the
  float nearest to 61.333, which is what Python writes 61.333, and \<open>"61 years"\<close> to 61.
\<close>

theorem remaining_lease_years_months:
  "(Y < 2 ^ 32 \<and> M < 2 ^ 32
      \<longrightarrow> (\<exists>k::int. remaining_lease (decimal Y @ '' years '' @ decimal M @ '' months'')
                       = Inr (Fin (fl (of_int k / 1000)))
                   \<and> \<bar>of_int k / 1000 - (real Y + real M / 12)\<bar> < 1 / 2000))
   \<and> (Y < 2 ^ 53 \<longrightarrow> remaining_lease (decimal Y @ '' years'') = Inr (Fin (real Y)))
   \<and> remaining_lease ''61 years 4 months'' = Inr (Fin (fl (61333 / 1000)))
   \<and> fl (61333 / 1000) = 2157963093324333 / 2 ^ 45
   \<and> remaining_lease ''61 years'' = Inr (Fin 61)"
proof (intro conjI impI)
  assume "Y < 2 ^ 32 \<and> M < 2 ^ 32"
  then have "Y < 2 ^ 32" and "M < 2 ^ 32" by simp_all
  then show "\<exists>k::int. remaining_lease (decimal Y @ '' years '' @ decimal M @ '' months'')
                       = Inr (Fin (fl (of_int k / 1000)))
                   \<and> \<bar>of_int k / 1000 - (real Y + real M / 12)\<bar> < 1 / 2000"
    by (rule lease_months)
next
  assume "Y < 2 ^ 53"
  then show "remaining_lease (decimal Y @ '' years'') = Inr (Fin (real Y))"
    by (rule lease_years)
next
  show "remaining_lease ''61 years 4 months'' = Inr (Fin (fl (61333 / 1000)))"
    by (simp add: lease_simps)
next
  show "fl (61333 / 1000) = 2157963093324333 / 2 ^ 45"
    by (simp add: float_simps)
next
  show "remaining_lease ''61 years'' = Inr (Fin 61)"
    by (simp add: lease_simps)
qed

text \<open>
  C9 at \<open>Y = 61\<close> and \<open>M = 4\<close>, where the hypotheses hold and the strings are the two of
  the claim.
\<close>

theorem remaining_lease_years_months_witness:
  "(61::nat) < 2 ^ 32 \<and> (4::nat) < 2 ^ 32 \<and> (61::nat) < 2 ^ 53
   \<and> decimal 61 @ '' years '' @ decimal 4 @ '' months'' = ''61 years 4 months''
   \<and> decimal 61 @ '' years'' = ''61 years''
   \<and> remaining_lease (decimal 61 @ '' years'') = Inr (Fin 61)
   \<and> (\<exists>k::int. remaining_lease (decimal 61 @ '' years '' @ decimal 4 @ '' months'')
                  = Inr (Fin (fl (of_int k / 1000)))
              \<and> \<bar>of_int k / 1000 - (real 61 + real 4 / 12)\<bar> < 1 / 2000)"
proof -
  have h: "(61::nat) < 2 ^ 32 \<and> (4::nat) < 2 ^ 32" "(61::nat) < 2 ^ 53" by simp_all
  have a: "decimal 61 @ '' years '' @ decimal 4 @ '' months'' = ''61 years 4 months''"
    and b: "decimal 61 @ '' years'' = ''61 years''"
    by (simp_all add: decimal_61)
  note t = remaining_lease_years_months[of 61 4]
  from t h(2) have c: "remaining_lease (decimal 61 @ '' years'') = Inr (Fin (real 61))" by blast
  from t h(1)
  have d: "\<exists>k::int. remaining_lease (decimal 61 @ '' years '' @ decimal 4 @ '' months'')
                  = Inr (Fin (fl (of_int k / 1000)))
              \<and> \<bar>of_int k / 1000 - (real 61 + real 4 / 12)\<bar> < 1 / 2000"
    by blast
  from h a b c d show ?thesis by simp
qed

text \<open>
  The claim C9 as first stated, for every \<open>Y\<close> and \<open>M\<close>, fails on large numbers, since the
  transform computes in 64-bit floats.  \<open>"9007199254740993 years"\<close> (\<open>2 ^ 53 + 1\<close>) goes
  to 9007199254740992, not to \<open>Y\<close>.  \<open>"10000000000000000 years 1 months"\<close> goes to
  10000000000000000, the twelfth lost.  \<open>"8841608913969 years 7 months"\<close> goes to
  4526903763952427 / 512, which is not the float nearest to 8841608913969.583, the
  rounded value of \<open>Y + 7 / 12\<close>: that one is 4526903763952426 / 512.  And on a year of
  310 digits the transform raises \<open>OverflowError\<close> and produces nothing.
\<close>

theorem remaining_lease_rounds_in_floats:
  "remaining_lease ''9007199254740993 years'' = Inr (Fin 9007199254740992)
   \<and> remaining_lease ''10000000000000000 years 1 months'' = Inr (Fin 10000000000000000)
   \<and> remaining_lease ''8841608913969 years 7 months'' = Inr (Fin (4526903763952427 / 512))
   \<and> fl (8841608913969583 / 1000) = 4526903763952426 / 512
   \<and> remaining_lease
        ''1000000000000000000000000000000000000000000000000000000000000000000000000000000000000000000000000000000000000000000000000000000000000000000000000000000000000000000000000000000000000000000000000000000000000000000000000000000000000000000000000000000000000000000000000000000000000000000000000000000000000000000000 years''
      = Inl OverflowError"
proof (intro conjI)
  show "remaining_lease ''9007199254740993 years'' = Inr (Fin 9007199254740992)"
    by (simp add: lease_simps)
  show "remaining_lease ''10000000000000000 years 1 months'' = Inr (Fin 10000000000000000)"
    by (simp add: lease_simps)
  show "remaining_lease ''8841608913969 years 7 months'' = Inr (Fin (4526903763952427 / 512))"
    by (simp add: lease_simps)
  show "fl (8841608913969583 / 1000) = 4526903763952426 / 512"
    by (simp add: float_simps)
  show "remaining_lease
        ''1000000000000000000000000000000000000000000000000000000000000000000000000000000000000000000000000000000000000000000000000000000000000000000000000000000000000000000000000000000000000000000000000000000000000000000000000000000000000000000000000000000000000000000000000000000000000000000000000000000000000000000000 years''
      = Inl OverflowError"
    by (simp add: lease_simps)
qed

end
